theory Spec2Isabelle
  imports Complex_Main "HOL-Library.Sublist" "HOL-Library.List_Lexorder" "HOL-Library.Char_ord"
begin

section \<open>Data model of \<^verbatim>\<open>main.py\<close>\<close>

text \<open>
  The program keeps three directories: the scratch directory \<^verbatim>\<open>temp_backups\<close>, the local
  backup folder and the remote working folder of the FTP server. A local directory is a
  list of entries (file name, \<^verbatim>\<open>st_mtime\<close>) in the order the operating system lists them;
  the remote folder is the list of names \<^verbatim>\<open>NLST\<close> returns. A directory that does not exist
  is \<open>None\<close>. Times are Python floats and are modelled by reals; the configured counts
  and intervals are Python's unbounded ints.
\<close>

type_synonym directory = "(string \<times> real) list"

record BackupConfig =
  local_enabled :: bool
  local_max :: int
  local_interval :: int
  ftp_enabled :: bool
  ftp_max :: int
  ftp_interval :: int

datatype error =
  FileNotFoundError | OSError | IndexError | FTP_error_perm | FTP_error_temp | OverflowError

datatype severity = INFO | SUCCESS | WARNING | ERROR | HEADER

text \<open>
  The state of a \<^verbatim>\<open>BackupManager\<close> together with the storage it acts on. \<open>log\<close> collects
  what \<^verbatim>\<open>Logger\<close> prints.
\<close>

record manager =
  temp_fs :: "directory option"
  local_fs :: "directory option"
  ftp_fs :: "string list option"
  last_local_run :: real
  last_ftp_run :: real
  log :: "(severity \<times> string) list"

text \<open>
  What the outside world decides during one pass of the loop: which system calls and FTP
  commands raise. A failing call leaves the storage as it was.
\<close>

record faults =
  temp_mkdir_fails :: bool
  make_archive_fails :: bool
  local_mkdir_fails :: bool
  local_undeletable :: "string set"
  local_copy_fails :: bool
  ftp_connect_fails :: bool
  ftp_login_fails :: bool
  ftp_cwd_fails :: bool
  ftp_mkd_fails :: bool
  ftp_nlst_fails :: bool
  ftp_undeletable :: "string set"
  ftp_stor_fails :: bool

record datetime =
  year :: nat
  month :: nat
  day :: nat
  hour :: nat
  minute :: nat
  second :: nat

text \<open>
  The clock readings of one pass: \<open>now\<close> is \<^verbatim>\<open>time.time()\<close> at the top of the loop, \<open>stamp\<close>
  is \<^verbatim>\<open>datetime.now()\<close>, \<open>zip_mtime\<close> the modification time the new archive gets,
  \<open>local_done\<close> and \<open>ftp_done\<close> are \<^verbatim>\<open>time.time()\<close> after a successful transfer and
  \<open>wait_now\<close> is \<^verbatim>\<open>time.time()\<close> in the wait computation.
\<close>

record clock =
  now :: real
  stamp :: datetime
  zip_mtime :: real
  local_done :: real
  ftp_done :: real
  wait_now :: real

section \<open>Logging\<close>

definition emit :: "severity \<Rightarrow> string \<Rightarrow> manager \<Rightarrow> manager" where
  "emit sev msg s = s\<lparr>log := log s @ [(sev, msg)]\<rparr>"

fun error_text :: "error \<Rightarrow> string" where
  "error_text FileNotFoundError = ''No such file or directory''"
| "error_text OSError = ''OSError''"
| "error_text IndexError = ''pop from empty list''"
| "error_text FTP_error_perm = ''error_perm''"
| "error_text FTP_error_temp = ''error_temp''"
| "error_text OverflowError = ''cannot convert float infinity to integer''"

section \<open>Directory primitives\<close>

definition names :: "directory option \<Rightarrow> string list" where
  "names d = (case d of None \<Rightarrow> [] | Some es \<Rightarrow> map fst es)"

definition path_exists :: "string \<Rightarrow> directory option \<Rightarrow> bool" where
  "path_exists name d = (name \<in> set (names d))"

definition unlink :: "string \<Rightarrow> directory option \<Rightarrow> error + directory option" where
  "unlink name d =
     (case d of
        None \<Rightarrow> Inl FileNotFoundError
      | Some es \<Rightarrow>
          if name \<in> set (map fst es) then Inr (Some (filter (\<lambda>e. fst e \<noteq> name) es))
          else Inl FileNotFoundError)"

definition rmdir :: "directory option \<Rightarrow> error + directory option" where
  "rmdir d =
     (case d of
        None \<Rightarrow> Inl FileNotFoundError
      | Some es \<Rightarrow> if es = [] then Inr None else Inl OSError)"

definition mkdir_exist_ok :: "directory option \<Rightarrow> directory option" where
  "mkdir_exist_ok d = (case d of None \<Rightarrow> Some [] | Some es \<Rightarrow> Some es)"

definition write_file :: "string \<Rightarrow> real \<Rightarrow> directory \<Rightarrow> directory" where
  "write_file name mtime es = filter (\<lambda>e. fst e \<noteq> name) es @ [(name, mtime)]"

definition entries :: "directory option \<Rightarrow> directory" where
  "entries d = (case d of None \<Rightarrow> [] | Some es \<Rightarrow> es)"

text \<open>
  \<^verbatim>\<open>glob("backup_*.zip")\<close>: the name is \<^verbatim>\<open>backup_\<close>, anything, \<^verbatim>\<open>.zip\<close>.
  \<^verbatim>\<open>f.startswith("backup_") and f.endswith(".zip")\<close> is the test on the remote listing.
\<close>

definition glob_backup :: "string \<Rightarrow> bool" where
  "glob_backup f = (prefix ''backup_'' f \<and> suffix ''.zip'' (drop 7 f))"

definition ftp_backup :: "string \<Rightarrow> bool" where
  "ftp_backup f = (prefix ''backup_'' f \<and> suffix ''.zip'' f)"

section \<open>Archive names\<close>

text \<open>\<^verbatim>\<open>strftime("%Y%m%d_%H%M%S")\<close>: zero-padded decimal fields of fixed width.\<close>

definition digit :: "nat \<Rightarrow> char" where
  "digit n = char_of (48 + n)"

definition pad2 :: "nat \<Rightarrow> string" where
  "pad2 n = [digit (n div 10), digit (n mod 10)]"

definition pad4 :: "nat \<Rightarrow> string" where
  "pad4 n = [digit (n div 1000), digit (n div 100 mod 10), digit (n div 10 mod 10), digit (n mod 10)]"

definition strftime :: "datetime \<Rightarrow> string" where
  "strftime d =
     pad4 (year d) @ pad2 (month d) @ pad2 (day d) @ ''_'' @
     pad2 (hour d) @ pad2 (minute d) @ pad2 (second d)"

definition backup_name :: "datetime \<Rightarrow> string" where
  "backup_name d = ''backup_'' @ strftime d"

definition zip_name :: "datetime \<Rightarrow> string" where
  "zip_name d = backup_name d @ ''.zip''"

text \<open>The values \<^verbatim>\<open>datetime.now()\<close> can return whose year has four digits.\<close>

definition valid_datetime :: "datetime \<Rightarrow> bool" where
  "valid_datetime d =
     (1000 \<le> year d \<and> year d \<le> 9999 \<and> 1 \<le> month d \<and> month d \<le> 12 \<and>
      1 \<le> day d \<and> day d \<le> 31 \<and> hour d < 24 \<and> minute d < 60 \<and> second d < 60)"

definition earlier :: "datetime \<Rightarrow> datetime \<Rightarrow> bool" where
  "earlier a b =
     (year a < year b \<or> year a = year b \<and>
      (month a < month b \<or> month a = month b \<and>
       (day a < day b \<or> day a = day b \<and>
        (hour a < hour b \<or> hour a = hour b \<and>
         (minute a < minute b \<or> minute a = minute b \<and> second a < second b)))))"

section \<open>Archiver\<close>


text \<open>\<^verbatim>\<open>cleanup_temp\<close>: both removals are guarded by an existence test.\<close>

definition cleanup_temp :: "string \<Rightarrow> manager \<Rightarrow> error + manager" where
  "cleanup_temp zip_path s =
     (case (if path_exists zip_path (temp_fs s) then unlink zip_path (temp_fs s)
            else Inr (temp_fs s)) of
        Inl e \<Rightarrow> Inl e
      | Inr t1 \<Rightarrow>
          if t1 \<noteq> None \<and> entries t1 = [] then
            (case rmdir t1 of Inl e \<Rightarrow> Inl e | Inr t2 \<Rightarrow> Inr (s\<lparr>temp_fs := t2\<rparr>))
          else Inr (s\<lparr>temp_fs := t1\<rparr>))"

section \<open>Local destination\<close>

text \<open>
  The rotation loop \<^verbatim>\<open>while len(backups) >= self.cfg.local_max\<close>: \<^verbatim>\<open>pop(0)\<close> raises
  \<^verbatim>\<open>IndexError\<close> on the empty list.
\<close>

fun rotate_local :: "faults \<Rightarrow> int \<Rightarrow> string list \<Rightarrow> manager \<Rightarrow> manager \<times> error option" where
  "rotate_local flt mx [] s = (if mx \<le> 0 then (s, Some IndexError) else (s, None))"
| "rotate_local flt mx (oldest # rest) s =
     (if mx \<le> int (length (oldest # rest)) then
        (if oldest \<in> local_undeletable flt then (s, Some OSError)
         else
           case unlink oldest (local_fs s) of
             Inl e \<Rightarrow> (s, Some e)
           | Inr d \<Rightarrow>
               rotate_local flt mx rest
                 (emit WARNING (''Rotated local backup: '' @ oldest) (s\<lparr>local_fs := d\<rparr>)))
      else (s, None))"

text \<open>\<^verbatim>\<open>shutil.copy2\<close>: the copy keeps the modification time of the archive.\<close>

definition copy2 :: "faults \<Rightarrow> string \<Rightarrow> directory option \<Rightarrow> directory option \<Rightarrow> error + directory option" where
  "copy2 flt zip_path src dst =
     (case map_of (entries src) zip_path of
        None \<Rightarrow> Inl FileNotFoundError
      | Some mtime \<Rightarrow>
          if local_copy_fails flt \<or> dst = None then Inl OSError
          else Inr (Some (write_file zip_path mtime (entries dst))))"

definition sorted_backups :: "directory option \<Rightarrow> string list" where
  "sorted_backups d = map fst (sort_key snd (filter (\<lambda>e. glob_backup (fst e)) (entries d)))"

text \<open>The body of the \<^verbatim>\<open>try\<close> of \<^verbatim>\<open>process_local\<close>, with the exception it raises, if any.\<close>

definition local_try :: "BackupConfig \<Rightarrow> faults \<Rightarrow> clock \<Rightarrow> string \<Rightarrow> manager \<Rightarrow> manager \<times> error option" where
  "local_try cfg flt clk zip_path s =
     (let s0 = emit INFO ''Starting Local Backup...'' s in
      if local_mkdir_fails flt then (s0, Some OSError)
      else
        let s1 = s0\<lparr>local_fs := mkdir_exist_ok (local_fs s0)\<rparr>;
            backups = sorted_backups (local_fs s1)
        in case rotate_local flt (local_max cfg) backups s1 of
             (s2, Some e) \<Rightarrow> (s2, Some e)
           | (s2, None) \<Rightarrow>
               (case copy2 flt zip_path (temp_fs s2) (local_fs s2) of
                  Inl e \<Rightarrow> (s2, Some e)
                | Inr d \<Rightarrow>
                    (emit SUCCESS (''Saved locally to: '' @ zip_path) (s2\<lparr>local_fs := d\<rparr>)
                       \<lparr>last_local_run := local_done clk\<rparr>, None)))"

definition process_local :: "BackupConfig \<Rightarrow> faults \<Rightarrow> clock \<Rightarrow> string \<Rightarrow> manager \<Rightarrow> manager" where
  "process_local cfg flt clk zip_path s =
     (if \<not> local_enabled cfg then s
      else
        case local_try cfg flt clk zip_path s of
          (s', None) \<Rightarrow> s'
        | (s', Some e) \<Rightarrow> emit ERROR (''Local backup failed: '' @ error_text e) s')"

section \<open>FTP destination\<close>

definition listing :: "string list option \<Rightarrow> string list" where
  "listing d = (case d of None \<Rightarrow> [] | Some l \<Rightarrow> l)"

definition ftp_cwd :: "faults \<Rightarrow> string list option \<Rightarrow> error option" where
  "ftp_cwd flt d =
     (if ftp_cwd_fails flt then Some FTP_error_temp
      else if d = None then Some FTP_error_perm else None)"

definition ftp_mkd :: "faults \<Rightarrow> string list option \<Rightarrow> error + string list option" where
  "ftp_mkd flt d = (if ftp_mkd_fails flt \<or> d \<noteq> None then Inl FTP_error_perm else Inr (Some []))"

definition ftp_delete :: "faults \<Rightarrow> string \<Rightarrow> string list option \<Rightarrow> error + string list option" where
  "ftp_delete flt name d =
     (if name \<in> ftp_undeletable flt \<or> name \<notin> set (listing d) then Inl FTP_error_perm
      else Inr (Some (removeAll name (listing d))))"

definition ftp_stor :: "faults \<Rightarrow> string \<Rightarrow> string list option \<Rightarrow> error + string list option" where
  "ftp_stor flt name d =
     (if ftp_stor_fails flt \<or> d = None then Inl FTP_error_temp
      else Inr (Some (if name \<in> set (listing d) then listing d else listing d @ [name])))"

text \<open>
  \<^verbatim>\<open>ftp.cwd\<close>; on \<^verbatim>\<open>error_perm\<close> the folder is created and entered. Any other error
  leaves the \<^verbatim>\<open>try\<close>.
\<close>

definition ftp_navigate :: "faults \<Rightarrow> manager \<Rightarrow> manager \<times> error option" where
  "ftp_navigate flt s =
     (case ftp_cwd flt (ftp_fs s) of
        None \<Rightarrow> (s, None)
      | Some e \<Rightarrow>
          if e = FTP_error_perm then
            (case ftp_mkd flt (ftp_fs s) of
               Inl e' \<Rightarrow> (s, Some e')
             | Inr d \<Rightarrow> (s\<lparr>ftp_fs := d\<rparr>, ftp_cwd flt d))
          else (s, Some e))"

fun rotate_ftp :: "faults \<Rightarrow> int \<Rightarrow> string list \<Rightarrow> manager \<Rightarrow> manager \<times> error option" where
  "rotate_ftp flt mx [] s = (if mx \<le> 0 then (s, Some IndexError) else (s, None))"
| "rotate_ftp flt mx (oldest # rest) s =
     (if mx \<le> int (length (oldest # rest)) then
        (case ftp_delete flt oldest (ftp_fs s) of
           Inl e \<Rightarrow> (s, Some e)
         | Inr d \<Rightarrow>
             rotate_ftp flt mx rest
               (emit WARNING (''Rotated FTP backup: '' @ oldest) (s\<lparr>ftp_fs := d\<rparr>)))
      else (s, None))"

definition sorted_files :: "string list option \<Rightarrow> string list" where
  "sorted_files d = sort (filter ftp_backup (listing d))"

text \<open>The body of the \<^verbatim>\<open>try\<close> of \<^verbatim>\<open>process_ftp\<close>.\<close>

definition ftp_try :: "BackupConfig \<Rightarrow> faults \<Rightarrow> clock \<Rightarrow> string \<Rightarrow> manager \<Rightarrow> manager \<times> error option" where
  "ftp_try cfg flt clk zip_path s =
     (if ftp_connect_fails flt then (s, Some OSError)
      else if ftp_login_fails flt then (s, Some FTP_error_perm)
      else
        case ftp_navigate flt (emit INFO ''Connected to FTP'' s) of
          (s1, Some e) \<Rightarrow> (s1, Some e)
        | (s1, None) \<Rightarrow>
            if ftp_nlst_fails flt then (s1, Some FTP_error_temp)
            else
              (case rotate_ftp flt (ftp_max cfg) (sorted_files (ftp_fs s1)) s1 of
                 (s2, Some e) \<Rightarrow> (s2, Some e)
               | (s2, None) \<Rightarrow>
                   if \<not> path_exists zip_path (temp_fs s2) then (s2, Some FileNotFoundError)
                   else
                     (case ftp_stor flt zip_path (ftp_fs s2) of
                        Inl e \<Rightarrow> (s2, Some e)
                      | Inr d \<Rightarrow>
                          (emit SUCCESS (''Uploaded to FTP: '' @ zip_path) (s2\<lparr>ftp_fs := d\<rparr>)
                             \<lparr>last_ftp_run := ftp_done clk\<rparr>, None))))"

definition process_ftp :: "BackupConfig \<Rightarrow> faults \<Rightarrow> clock \<Rightarrow> string \<Rightarrow> manager \<Rightarrow> manager" where
  "process_ftp cfg flt clk zip_path s =
     (if \<not> ftp_enabled cfg then s
      else
        case ftp_try cfg flt clk zip_path (emit INFO ''Starting FTP Backup...'' s) of
          (s', None) \<Rightarrow> s'
        | (s', Some e) \<Rightarrow> emit ERROR (''FTP backup failed: '' @ error_text e) s')"

section \<open>Scheduler\<close>













section \<open>Retained archives and sequences of stores\<close>

text \<open>
  The archives a destination retains are the entries its own listing step selects: the
  files of the local folder matching \<^verbatim>\<open>backup_*.zip\<close>, and the remote names with the prefix
  \<^verbatim>\<open>backup_\<close> and the suffix \<^verbatim>\<open>.zip\<close>.
\<close>

definition retained_local :: "manager \<Rightarrow> nat" where
  "retained_local s = length (filter glob_backup (names (local_fs s)))"

definition retained_ftp :: "manager \<Rightarrow> nat" where
  "retained_ftp s = length (filter ftp_backup (listing (ftp_fs s)))"

text \<open>A store is successful when the \<^verbatim>\<open>try\<close> block runs to its end.\<close>

definition local_store_ok :: "BackupConfig \<Rightarrow> faults \<Rightarrow> clock \<Rightarrow> string \<Rightarrow> manager \<Rightarrow> bool" where
  "local_store_ok cfg flt clk zip_path s =
     (local_enabled cfg \<and> snd (local_try cfg flt clk zip_path s) = None)"

definition ftp_store_ok :: "BackupConfig \<Rightarrow> faults \<Rightarrow> clock \<Rightarrow> string \<Rightarrow> manager \<Rightarrow> bool" where
  "ftp_store_ok cfg flt clk zip_path s =
     (ftp_enabled cfg \<and>
      snd (ftp_try cfg flt clk zip_path (emit INFO ''Starting FTP Backup...'' s)) = None)"

text \<open>
  A sequence of store calls at one destination. Each call comes with its environment,
  the archive path and the scratch directory as the scheduler prepared it for that
  cycle; nothing else touches the destination in between. The result is \<open>None\<close> as soon
  as one store of the sequence fails.
\<close>

fun local_stores ::
  "BackupConfig \<Rightarrow> (faults \<times> clock \<times> string \<times> directory option) list \<Rightarrow> manager \<Rightarrow> manager option"
where
  "local_stores cfg [] s = Some s"
| "local_stores cfg ((flt, clk, zip_path, scratch) # calls) s =
     (if local_store_ok cfg flt clk zip_path (s\<lparr>temp_fs := scratch\<rparr>)
      then local_stores cfg calls (process_local cfg flt clk zip_path (s\<lparr>temp_fs := scratch\<rparr>))
      else None)"

fun ftp_stores ::
  "BackupConfig \<Rightarrow> (faults \<times> clock \<times> string \<times> directory option) list \<Rightarrow> manager \<Rightarrow> manager option"
where
  "ftp_stores cfg [] s = Some s"
| "ftp_stores cfg ((flt, clk, zip_path, scratch) # calls) s =
     (if ftp_store_ok cfg flt clk zip_path (s\<lparr>temp_fs := scratch\<rparr>)
      then ftp_stores cfg calls (process_ftp cfg flt clk zip_path (s\<lparr>temp_fs := scratch\<rparr>))
      else None)"

definition call_path :: "faults \<times> clock \<times> string \<times> directory option \<Rightarrow> string" where
  "call_path c = fst (snd (snd c))"


section \<open>Scenario data\<close>

text \<open>
  The manager as \<^verbatim>\<open>__init__\<close> leaves it, with no directory on disk yet; an environment in
  which no call fails; and four archive names in chronological order.
\<close>

definition initial_manager :: manager where
  "initial_manager =
     \<lparr>temp_fs = None, local_fs = None, ftp_fs = None,
      last_local_run = 0, last_ftp_run = 0, log = []\<rparr>"

definition no_faults :: faults where
  "no_faults =
     \<lparr>temp_mkdir_fails = False, make_archive_fails = False, local_mkdir_fails = False,
      local_undeletable = {}, local_copy_fails = False, ftp_connect_fails = False,
      ftp_login_fails = False, ftp_cwd_fails = False, ftp_mkd_fails = False,
      ftp_nlst_fails = False, ftp_undeletable = {}, ftp_stor_fails = False\<rparr>"

definition clock_at :: "real \<Rightarrow> datetime \<Rightarrow> clock" where
  "clock_at t d =
     \<lparr>now = t, stamp = d, zip_mtime = t, local_done = t, ftp_done = t, wait_now = t\<rparr>"

definition A1 :: string where "A1 = ''backup_20240101_000000.zip''"
definition A2 :: string where "A2 = ''backup_20240102_000000.zip''"
definition A3 :: string where "A3 = ''backup_20240103_000000.zip''"
definition A4 :: string where "A4 = ''backup_20240104_000000.zip''"

definition D1 :: datetime where
  "D1 = \<lparr>year = 2024, month = 1, day = 1, hour = 0, minute = 0, second = 0\<rparr>"
definition D2 :: datetime where
  "D2 = \<lparr>year = 2024, month = 1, day = 2, hour = 0, minute = 0, second = 0\<rparr>"

text \<open>Both destinations enabled, hourly, with the same maximum.\<close>

definition both_enabled :: "int \<Rightarrow> BackupConfig" where
  "both_enabled n =
     \<lparr>local_enabled = True, local_max = n, local_interval = 3600,
      ftp_enabled = True, ftp_max = n, ftp_interval = 3600\<rparr>"


text \<open>A store call in which nothing fails, with the archive alone in the scratch directory.\<close>

definition store_call :: "real \<Rightarrow> string \<Rightarrow> faults \<times> clock \<times> string \<times> directory option" where
  "store_call t z = (no_faults, clock_at t D1, z, Some [(z, t)])"

section \<open>Archive names and their order\<close>

lemma digit_less: "a < 10 \<Longrightarrow> b < 10 \<Longrightarrow> digit a < digit b \<longleftrightarrow> a < b"
  by (simp add: digit_def less_char_def)

lemma digit_inj: "a < 10 \<Longrightarrow> b < 10 \<Longrightarrow> digit a = digit b \<longleftrightarrow> a = b"
  by (simp add: digit_def)

lemma lex_div_mod:
  fixes a b k :: nat
  shows "(a div k < b div k \<or> a div k = b div k \<and> (a mod k < b mod k \<or> a mod k = b mod k \<and> P))
         \<longleftrightarrow> (a < b \<or> a = b \<and> P)"
proof -
  have a: "a = k * (a div k) + a mod k" and b: "b = k * (b div k) + b mod k"
    by simp_all
  have 1: "a div k < b div k \<Longrightarrow> a < b"
    by (meson div_le_mono not_le)
  have 2: "a div k = b div k \<Longrightarrow> a mod k < b mod k \<longleftrightarrow> a < b"
    by (metis a b nat_add_left_cancel_less)
  have 3: "a < b \<Longrightarrow> a div k \<le> b div k"
    by (simp add: div_le_mono)
  have 4: "a div k = b div k \<and> a mod k = b mod k \<longleftrightarrow> a = b"
    by (metis a b)
  show ?thesis
    using 1 2 3 4 by (metis le_neq_implies_less)
qed

lemma pad2_less:
  assumes "a < 100" "b < 100"
  shows "pad2 a @ xs < pad2 b @ ys \<longleftrightarrow> a < b \<or> a = b \<and> xs < ys"
proof -
  have d: "a div 10 < 10" "b div 10 < 10" "a mod 10 < 10" "b mod 10 < 10"
    using assms by simp_all
  have "pad2 a @ xs < pad2 b @ ys \<longleftrightarrow>
        a div 10 < b div 10 \<or> a div 10 = b div 10 \<and>
          (a mod 10 < b mod 10 \<or> a mod 10 = b mod 10 \<and> xs < ys)"
    by (simp add: pad2_def digit_less digit_inj d)
  then show ?thesis
    by (simp only: lex_div_mod)
qed

lemma pad4_split: "pad4 n = pad2 (n div 100) @ pad2 (n mod 100)"
proof -
  have m: "n mod 100 = 10 * (n div 10 mod 10) + n mod 10"
    using mod_mult2_eq [of n 10 10] by simp
  have "n div 100 div 10 = n div 1000"
    using div_mult2_eq [of n 100 10] by simp
  moreover have "n mod 100 div 10 = n div 10 mod 10" "n mod 100 mod 10 = n mod 10"
    by (simp_all add: m)
  ultimately show ?thesis
    by (simp add: pad4_def pad2_def)
qed

lemma pad4_less:
  assumes "a < 10000" "b < 10000"
  shows "pad4 a @ xs < pad4 b @ ys \<longleftrightarrow> a < b \<or> a = b \<and> xs < ys"
proof -
  have d: "a div 100 < 100" "b div 100 < 100" "a mod 100 < 100" "b mod 100 < 100"
    using assms by simp_all
  have "pad4 a @ xs < pad4 b @ ys \<longleftrightarrow>
        a div 100 < b div 100 \<or> a div 100 = b div 100 \<and>
          (a mod 100 < b mod 100 \<or> a mod 100 = b mod 100 \<and> xs < ys)"
    by (simp add: pad4_split pad2_less d)
  then show ?thesis
    by (simp only: lex_div_mod)
qed

lemma zip_name_less:
  assumes "valid_datetime a" "valid_datetime b"
  shows "zip_name a < zip_name b \<longleftrightarrow> earlier a b"
proof -
  have b: "year a < 10000" "year b < 10000" "month a < 100" "month b < 100"
    "day a < 100" "day b < 100" "hour a < 100" "hour b < 100"
    "minute a < 100" "minute b < 100" "second a < 100" "second b < 100"
    using assms by (simp_all add: valid_datetime_def)
  show ?thesis
    by (simp add: zip_name_def backup_name_def strftime_def pad4_less pad2_less b earlier_def)
qed

lemma zip_name_length: "length (zip_name d) = 26"
  by (simp add: zip_name_def backup_name_def strftime_def pad4_def pad2_def)

text \<open>
  Claim C9. The archive name is \<^verbatim>\<open>backup_\<close>, eight digits of the date, \<^verbatim>\<open>_\<close>, six digits of the
  time and \<^verbatim>\<open>.zip\<close>: every name has 26 characters, and of two archives stamped with valid
  four-digit-year datetimes the one stamped earlier has the smaller name in the
  lexicographic order of strings. The remote listing of the scenario, in any order,
  is sorted into chronological order by \<^verbatim>\<open>files.sort()\<close>.
\<close>

theorem archive_names_sort_chronologically:
  "length (zip_name a) = 26 \<and>
   (valid_datetime a \<and> valid_datetime b \<longrightarrow> (earlier a b \<longleftrightarrow> zip_name a < zip_name b)) \<and>
   sorted_files (Some [''backup_20240101_000000.zip'', ''backup_20240102_000000.zip'',
                       ''backup_20240115_235959.zip'']) =
     [''backup_20240101_000000.zip'', ''backup_20240102_000000.zip'',
      ''backup_20240115_235959.zip''] \<and>
   sorted_files (Some [''backup_20240115_235959.zip'', ''backup_20240101_000000.zip'',
                       ''backup_20240102_000000.zip'']) =
     [''backup_20240101_000000.zip'', ''backup_20240102_000000.zip'',
      ''backup_20240115_235959.zip'']"
proof -
  have "valid_datetime a \<and> valid_datetime b \<longrightarrow> (earlier a b \<longleftrightarrow> zip_name a < zip_name b)"
    by (simp add: zip_name_less)
  moreover have "sorted_files (Some [''backup_20240101_000000.zip'',
      ''backup_20240102_000000.zip'', ''backup_20240115_235959.zip'']) =
     [''backup_20240101_000000.zip'', ''backup_20240102_000000.zip'',
      ''backup_20240115_235959.zip'']"
    by (simp add: sorted_files_def listing_def ftp_backup_def suffix_to_prefix)
  moreover have "sorted_files (Some [''backup_20240115_235959.zip'',
      ''backup_20240101_000000.zip'', ''backup_20240102_000000.zip'']) =
     [''backup_20240101_000000.zip'', ''backup_20240102_000000.zip'',
      ''backup_20240115_235959.zip'']"
    by (simp add: sorted_files_def listing_def ftp_backup_def suffix_to_prefix)
  ultimately show ?thesis
    by (simp add: zip_name_length)
qed

theorem archive_names_sort_chronologically_witness:
  "valid_datetime \<lparr>year = 2024, month = 1, day = 2, hour = 0, minute = 0, second = 0\<rparr> \<and>
   valid_datetime \<lparr>year = 2024, month = 1, day = 15, hour = 23, minute = 59, second = 59\<rparr> \<and>
   earlier \<lparr>year = 2024, month = 1, day = 2, hour = 0, minute = 0, second = 0\<rparr>
           \<lparr>year = 2024, month = 1, day = 15, hour = 23, minute = 59, second = 59\<rparr> \<and>
   zip_name \<lparr>year = 2024, month = 1, day = 2, hour = 0, minute = 0, second = 0\<rparr>
     < zip_name \<lparr>year = 2024, month = 1, day = 15, hour = 23, minute = 59, second = 59\<rparr>"
  using archive_names_sort_chronologically
    [of "\<lparr>year = 2024, month = 1, day = 2, hour = 0, minute = 0, second = 0\<rparr>"
        "\<lparr>year = 2024, month = 1, day = 15, hour = 23, minute = 59, second = 59\<rparr>"]
  by (simp add: valid_datetime_def earlier_def)

section \<open>Cleanup of the scratch area\<close>


text \<open>
  Claim C8. \<^verbatim>\<open>cleanup_temp\<close> never raises, whatever the archive path and whatever is left of
  the scratch directory; run again on the manager it returned it changes nothing and
  does not raise; and when the scratch directory is already gone it returns the manager
  unchanged.
\<close>

theorem cleanup_temp_idempotent:
  "(\<exists>s'. cleanup_temp zip_path s = Inr s' \<and> cleanup_temp zip_path s' = Inr s') \<and>
   cleanup_temp zip_path (s\<lparr>temp_fs := None\<rparr>) = Inr (s\<lparr>temp_fs := None\<rparr>)"
  by (cases "temp_fs s")
     (auto simp: cleanup_temp_def path_exists_def names_def unlink_def rmdir_def entries_def
           split: option.splits sum.splits)

theorem cleanup_temp_idempotent_witness:
  "\<exists>s'. cleanup_temp ''backup_20240101_000000.zip''
           \<lparr>temp_fs = Some [(''backup_20240101_000000.zip'', 5)], local_fs = None, ftp_fs = None,
            last_local_run = 0, last_ftp_run = 0, log = []\<rparr> = Inr s' \<and>
        cleanup_temp ''backup_20240101_000000.zip'' s' = Inr s' \<and> temp_fs s' = None"
proof -
  obtain s' where s':
    "cleanup_temp ''backup_20240101_000000.zip''
       \<lparr>temp_fs = Some [(''backup_20240101_000000.zip'', 5)], local_fs = None, ftp_fs = None,
        last_local_run = 0, last_ftp_run = 0, log = []\<rparr> = Inr s'"
    "cleanup_temp ''backup_20240101_000000.zip'' s' = Inr s'"
    using cleanup_temp_idempotent by blast
  from s'(1) have "temp_fs s' = None"
    by (auto simp: cleanup_temp_def path_exists_def names_def unlink_def rmdir_def entries_def
             split: if_splits)
  with s' show ?thesis by blast
qed

section \<open>The rotation loops\<close>

lemma rotate_local_frame:
  "rotate_local flt mx bs s = (s2, r) \<Longrightarrow>
     temp_fs s2 = temp_fs s \<and> ftp_fs s2 = ftp_fs s \<and>
     last_local_run s2 = last_local_run s \<and> last_ftp_run s2 = last_ftp_run s"
  by (induction bs arbitrary: s) (auto simp: emit_def split: if_splits sum.splits)

lemma rotate_local_nonpos: "mx \<le> 0 \<Longrightarrow> snd (rotate_local flt mx bs s) \<noteq> None"
  by (induction bs arbitrary: s) (auto split: sum.splits)

lemma rotate_local_prefix:
  "rotate_local flt mx bs s = (s2, r) \<Longrightarrow> local_fs s = Some es \<Longrightarrow>
     \<exists>k\<le>length bs. local_fs s2 = Some (filter (\<lambda>e. fst e \<notin> set (take k bs)) es)"
proof (induction bs arbitrary: s es)
  case Nil
  then show ?case by (auto split: if_splits)
next
  case (Cons oldest rest)
  show ?case
  proof (cases "mx \<le> int (length (oldest # rest)) \<and> oldest \<notin> local_undeletable flt \<and>
                oldest \<in> set (map fst es)")
    case True
    let ?s = "emit WARNING (''Rotated local backup: '' @ oldest)
                (s\<lparr>local_fs := Some (filter (\<lambda>e. fst e \<noteq> oldest) es)\<rparr>)"
    from True Cons.prems have run: "rotate_local flt mx rest ?s = (s2, r)"
      by (simp add: unlink_def)
    have "local_fs ?s = Some (filter (\<lambda>e. fst e \<noteq> oldest) es)"
      by (simp add: emit_def)
    from Cons.IH [OF run this] obtain k where k: "k \<le> length rest"
      "local_fs s2 = Some (filter (\<lambda>e. fst e \<notin> set (take k rest)) (filter (\<lambda>e. fst e \<noteq> oldest) es))"
      by blast
    have "filter (\<lambda>e. fst e \<notin> set (take k rest)) (filter (\<lambda>e. fst e \<noteq> oldest) es) =
          filter (\<lambda>e. fst e \<notin> set (take (Suc k) (oldest # rest))) es"
      by (auto intro: filter_cong)
    with k show ?thesis
      by (intro exI [of _ "Suc k"]) simp
  next
    case False
    with Cons.prems have "s2 = s"
      by (auto simp: unlink_def split: if_splits)
    with Cons.prems show ?thesis
      by (intro exI [of _ 0]) simp
  qed
qed

lemma rotate_local_success:
  "rotate_local flt mx bs s = (s2, None) \<Longrightarrow> local_fs s = Some es \<Longrightarrow>
     local_fs s2 = Some (filter (\<lambda>e. fst e \<notin> set (take (Suc (length bs) - nat mx) bs)) es)"
proof (induction bs arbitrary: s es)
  case Nil
  then show ?case by (auto split: if_splits)
next
  case (Cons oldest rest)
  from Cons.prems(1) have pos: "1 \<le> mx"
    using rotate_local_nonpos [of mx flt "oldest # rest" s] by (cases "mx \<le> 0") auto
  show ?case
  proof (cases "mx \<le> int (length (oldest # rest))")
    case True
    let ?s = "emit WARNING (''Rotated local backup: '' @ oldest)
                (s\<lparr>local_fs := Some (filter (\<lambda>e. fst e \<noteq> oldest) es)\<rparr>)"
    from True Cons.prems have run: "rotate_local flt mx rest ?s = (s2, None)"
      by (auto simp: unlink_def split: if_splits)
    have "local_fs ?s = Some (filter (\<lambda>e. fst e \<noteq> oldest) es)"
      by (simp add: emit_def)
    from Cons.IH [OF run this] have
      "local_fs s2 = Some (filter (\<lambda>e. fst e \<notin> set (take (Suc (length rest) - nat mx) rest))
                             (filter (\<lambda>e. fst e \<noteq> oldest) es))" .
    moreover from True pos have "Suc (length (oldest # rest)) - nat mx = Suc (Suc (length rest) - nat mx)"
      by simp
    moreover have "filter (\<lambda>e. fst e \<notin> set (take (Suc (length rest) - nat mx) rest))
                     (filter (\<lambda>e. fst e \<noteq> oldest) es) =
          filter (\<lambda>e. fst e \<notin> set (take (Suc (Suc (length rest) - nat mx)) (oldest # rest))) es"
      by (auto intro: filter_cong)
    ultimately show ?thesis by simp
  next
    case False
    with Cons.prems have "s2 = s" by simp
    moreover from False have "Suc (length (oldest # rest)) - nat mx = 0" by simp
    ultimately show ?thesis using Cons.prems by simp
  qed
qed



lemma rotate_ftp_frame:
  "rotate_ftp flt mx bs s = (s2, r) \<Longrightarrow>
     temp_fs s2 = temp_fs s \<and> local_fs s2 = local_fs s \<and>
     last_local_run s2 = last_local_run s \<and> last_ftp_run s2 = last_ftp_run s"
  by (induction bs arbitrary: s) (auto simp: emit_def split: if_splits sum.splits)

lemma rotate_ftp_nonpos: "mx \<le> 0 \<Longrightarrow> snd (rotate_ftp flt mx bs s) \<noteq> None"
  by (induction bs arbitrary: s) (auto split: sum.splits)

lemma ftp_delete_Inr:
  "ftp_delete flt name (Some l) = Inr d \<longleftrightarrow>
     name \<notin> ftp_undeletable flt \<and> name \<in> set l \<and> d = Some (filter (\<lambda>n. n \<noteq> name) l)"
  by (auto simp: ftp_delete_def listing_def removeAll_filter_not_eq intro: filter_cong)

lemma rotate_ftp_prefix:
  "rotate_ftp flt mx bs s = (s2, r) \<Longrightarrow> ftp_fs s = Some l \<Longrightarrow>
     \<exists>k\<le>length bs. ftp_fs s2 = Some (filter (\<lambda>n. n \<notin> set (take k bs)) l)"
proof (induction bs arbitrary: s l)
  case Nil
  then show ?case by (auto split: if_splits)
next
  case (Cons oldest rest)
  show ?case
  proof (cases "mx \<le> int (length (oldest # rest)) \<and> oldest \<notin> ftp_undeletable flt \<and>
                oldest \<in> set l")
    case True
    let ?s = "emit WARNING (''Rotated FTP backup: '' @ oldest)
                (s\<lparr>ftp_fs := Some (filter (\<lambda>n. n \<noteq> oldest) l)\<rparr>)"
    from True have "ftp_delete flt oldest (Some l) = Inr (Some (filter (\<lambda>n. n \<noteq> oldest) l))"
      by (simp add: ftp_delete_Inr)
    with True Cons.prems have run: "rotate_ftp flt mx rest ?s = (s2, r)"
      by simp
    have "ftp_fs ?s = Some (filter (\<lambda>n. n \<noteq> oldest) l)"
      by (simp add: emit_def)
    from Cons.IH [OF run this] obtain k where k: "k \<le> length rest"
      "ftp_fs s2 = Some (filter (\<lambda>n. n \<notin> set (take k rest)) (filter (\<lambda>n. n \<noteq> oldest) l))"
      by blast
    have "filter (\<lambda>n. n \<notin> set (take k rest)) (filter (\<lambda>n. n \<noteq> oldest) l) =
          filter (\<lambda>n. n \<notin> set (take (Suc k) (oldest # rest))) l"
      by (auto intro: filter_cong)
    with k show ?thesis
      by (intro exI [of _ "Suc k"]) simp
  next
    case False
    with Cons.prems have "s2 = s"
      by (auto simp: ftp_delete_def listing_def split: if_splits)
    with Cons.prems show ?thesis
      by (intro exI [of _ 0]) simp
  qed
qed

lemma rotate_ftp_success:
  "rotate_ftp flt mx bs s = (s2, None) \<Longrightarrow> ftp_fs s = Some l \<Longrightarrow>
     ftp_fs s2 = Some (filter (\<lambda>n. n \<notin> set (take (Suc (length bs) - nat mx) bs)) l)"
proof (induction bs arbitrary: s l)
  case Nil
  then show ?case by (auto split: if_splits)
next
  case (Cons oldest rest)
  from Cons.prems(1) have pos: "1 \<le> mx"
    using rotate_ftp_nonpos [of mx flt "oldest # rest" s] by (cases "mx \<le> 0") auto
  show ?case
  proof (cases "mx \<le> int (length (oldest # rest))")
    case True
    let ?s = "emit WARNING (''Rotated FTP backup: '' @ oldest)
                (s\<lparr>ftp_fs := Some (filter (\<lambda>n. n \<noteq> oldest) l)\<rparr>)"
    from True Cons.prems have run: "rotate_ftp flt mx rest ?s = (s2, None)"
      by (auto simp: ftp_delete_Inr split: sum.splits)
    have "ftp_fs ?s = Some (filter (\<lambda>n. n \<noteq> oldest) l)"
      by (simp add: emit_def)
    from Cons.IH [OF run this] have
      "ftp_fs s2 = Some (filter (\<lambda>n. n \<notin> set (take (Suc (length rest) - nat mx) rest))
                           (filter (\<lambda>n. n \<noteq> oldest) l))" .
    moreover from True pos have "Suc (length (oldest # rest)) - nat mx = Suc (Suc (length rest) - nat mx)"
      by simp
    moreover have "filter (\<lambda>n. n \<notin> set (take (Suc (length rest) - nat mx) rest))
                     (filter (\<lambda>n. n \<noteq> oldest) l) =
          filter (\<lambda>n. n \<notin> set (take (Suc (Suc (length rest) - nat mx)) (oldest # rest))) l"
      by (auto intro: filter_cong)
    ultimately show ?thesis by simp
  next
    case False
    with Cons.prems have "s2 = s" by simp
    moreover from False have "Suc (length (oldest # rest)) - nat mx = 0" by simp
    ultimately show ?thesis using Cons.prems by simp
  qed
qed


lemma distinct_sorted_backups:
  "distinct (map fst es) \<Longrightarrow> distinct (sorted_backups (Some es))"
  by (simp add: sorted_backups_def entries_def distinct_map distinct_map_filter inj_on_def)

lemma set_sorted_backups:
  "set (sorted_backups d) = {n \<in> set (names d). glob_backup n}"
  by (cases d) (auto simp: sorted_backups_def entries_def names_def)

lemma filter_take_drop:
  assumes "distinct (map f xs)"
  shows "filter (\<lambda>e. f e \<notin> set (take j (map f xs))) xs = drop j xs"
proof -
  let ?P = "\<lambda>e. f e \<notin> set (take j (map f xs))"
  have "distinct (map f (take j xs) @ map f (drop j xs))"
    using assms by (metis append_take_drop_id map_append)
  then have disj: "set (map f (take j xs)) \<inter> set (map f (drop j xs)) = {}"
    by simp
  have a: "filter ?P (take j xs) = []"
    by (auto simp: take_map filter_empty_conv)
  have b: "filter ?P (drop j xs) = drop j xs"
    using disj by (auto simp: take_map filter_id_conv)
  have "filter ?P xs = filter ?P (take j xs @ drop j xs)"
    by (simp only: append_take_drop_id)
  also have "\<dots> = drop j xs"
    by (simp only: filter_append a b append_Nil)
  finally show ?thesis .
qed

lemma sorted_backups_after_rotation:
  assumes "distinct (map fst es)"
  shows "sorted_backups (Some (filter (\<lambda>e. fst e \<notin> set (take j (sorted_backups (Some es)))) es)) =
         drop j (sorted_backups (Some es))"
proof -
  let ?G = "sort_key snd (filter (\<lambda>e. glob_backup (fst e)) es)"
  let ?D = "\<lambda>e. fst e \<notin> set (take j (map fst ?G))"
  have dG: "distinct (map fst ?G)"
    using distinct_sorted_backups [OF assms] by (simp add: sorted_backups_def entries_def)
  have "sort_key snd (filter (\<lambda>e. glob_backup (fst e)) (filter ?D es)) = filter ?D ?G"
    by (simp add: filter_sort conj_commute)
  also have "\<dots> = drop j ?G"
    using dG by (rule filter_take_drop)
  finally show ?thesis
    by (simp add: sorted_backups_def entries_def drop_map)
qed


lemma sorted_files_after_rotation:
  assumes "distinct l"
  shows "sorted_files (Some (filter (\<lambda>n. n \<notin> set (take j (sorted_files (Some l)))) l)) =
         drop j (sorted_files (Some l))"
proof -
  let ?G = "sort (filter ftp_backup l)"
  let ?D = "\<lambda>n. n \<notin> set (take j ?G)"
  have dG: "distinct (map (\<lambda>n. n) ?G)"
    using assms by simp
  have "sort (filter ftp_backup (filter ?D l)) = filter ?D ?G"
    by (simp add: filter_sort conj_commute)
  also have "\<dots> = drop j ?G"
    using filter_take_drop [OF dG, of j] by simp
  finally show ?thesis
    by (simp add: sorted_files_def listing_def)
qed




section \<open>Which archives the rotation deletes\<close>

lemmas fixture_defs = initial_manager_def no_faults_def A1_def A2_def A3_def A4_def






section \<open>The try blocks of the two destinations\<close>

lemma sorted_backups_mkdir [simp]: "sorted_backups (mkdir_exist_ok d) = sorted_backups d"
  by (cases d) (simp_all add: sorted_backups_def mkdir_exist_ok_def entries_def)

lemma mkdir_exist_ok_entries: "mkdir_exist_ok d = Some (entries d)"
  by (cases d) (simp_all add: mkdir_exist_ok_def entries_def)


lemma local_try_success:
  assumes "local_try cfg flt clk z s = (s', None)"
  shows "1 \<le> local_max cfg \<and> last_local_run s' = local_done clk \<and>
         (\<exists>m. map_of (entries (temp_fs s)) z = Some m \<and>
           local_fs s' = Some (write_file z m
             (filter (\<lambda>e. fst e \<notin> set (take (Suc (length (sorted_backups (local_fs s))) - nat (local_max cfg))
                                         (sorted_backups (local_fs s))))
                (entries (local_fs s)))))"
proof -
  let ?s1 = "(emit INFO ''Starting Local Backup...'' s)
               \<lparr>local_fs := mkdir_exist_ok (local_fs (emit INFO ''Starting Local Backup...'' s))\<rparr>"
  have nf: "\<not> local_mkdir_fails flt"
    using assms by (auto simp: local_try_def)
  obtain s2 r2 where rot: "rotate_local flt (local_max cfg) (sorted_backups (local_fs ?s1)) ?s1 = (s2, r2)"
    by (cases "rotate_local flt (local_max cfg) (sorted_backups (local_fs ?s1)) ?s1") auto
  with assms nf have r2: "r2 = None"
    by (auto simp: local_try_def Let_def split: option.splits)
  have pos: "1 \<le> local_max cfg"
    using rotate_local_nonpos [of "local_max cfg" flt "sorted_backups (local_fs ?s1)" ?s1] rot r2
    by (cases "local_max cfg \<le> 0") auto
  have l1: "local_fs ?s1 = Some (entries (local_fs s))"
    by (simp add: emit_def mkdir_exist_ok_entries)
  have sb: "sorted_backups (local_fs ?s1) = sorted_backups (local_fs s)"
    by (simp add: emit_def)
  from rotate_local_success [OF rot [unfolded r2] l1]
  have l2: "local_fs s2 = Some (filter (\<lambda>e. fst e \<notin> set (take (Suc (length (sorted_backups (local_fs s))) - nat (local_max cfg))
                                         (sorted_backups (local_fs s)))) (entries (local_fs s)))"
    by (simp only: sb)
  from rotate_local_frame [OF rot] have t2: "temp_fs s2 = temp_fs s"
    by (simp add: emit_def)
  from assms nf rot r2 l2 t2 pos show ?thesis
    by (auto simp: local_try_def Let_def emit_def copy2_def entries_def
             split: option.splits sum.splits if_splits)
qed

lemma local_try_failure:
  assumes "local_try cfg flt clk z s = (s', Some e)"
  shows "last_local_run s' = last_local_run s \<and>
         (\<exists>k\<le>length (sorted_backups (local_fs s)).
            entries (local_fs s') =
              filter (\<lambda>e. fst e \<notin> set (take k (sorted_backups (local_fs s)))) (entries (local_fs s)))"
proof (cases "local_mkdir_fails flt")
  case True
  with assms have "s' = emit INFO ''Starting Local Backup...'' s"
    by (auto simp: local_try_def)
  then show ?thesis
    by (auto simp: emit_def intro!: exI [of _ 0])
next
  case False
  let ?s1 = "(emit INFO ''Starting Local Backup...'' s)
               \<lparr>local_fs := mkdir_exist_ok (local_fs (emit INFO ''Starting Local Backup...'' s))\<rparr>"
  obtain s2 r2 where rot: "rotate_local flt (local_max cfg) (sorted_backups (local_fs ?s1)) ?s1 = (s2, r2)"
    by (cases "rotate_local flt (local_max cfg) (sorted_backups (local_fs ?s1)) ?s1") auto
  have l1: "local_fs ?s1 = Some (entries (local_fs s))"
    by (simp add: emit_def mkdir_exist_ok_entries)
  have sb: "sorted_backups (local_fs ?s1) = sorted_backups (local_fs s)"
    by (simp add: emit_def)
  from rotate_local_prefix [OF rot l1] obtain k where
    k: "k \<le> length (sorted_backups (local_fs s))"
       "local_fs s2 = Some (filter (\<lambda>e. fst e \<notin> set (take k (sorted_backups (local_fs s)))) (entries (local_fs s)))"
    unfolding sb by blast
  from rotate_local_frame [OF rot] have r: "last_local_run s2 = last_local_run s"
    by (simp add: emit_def)
  from assms False rot have "s' = s2"
    by (auto simp: local_try_def Let_def split: option.splits sum.splits)
  with k r show ?thesis
    by (auto simp: entries_def)
qed



lemma sorted_files_listing: "sorted_files (Some (listing d)) = sorted_files d"
  by (cases d) (simp_all add: sorted_files_def listing_def)

lemma ftp_navigate_frame:
  assumes "ftp_navigate flt s = (s1, r)"
  shows "listing (ftp_fs s1) = listing (ftp_fs s) \<and> temp_fs s1 = temp_fs s \<and>
         local_fs s1 = local_fs s \<and> last_local_run s1 = last_local_run s \<and>
         last_ftp_run s1 = last_ftp_run s \<and> (r = None \<longrightarrow> ftp_fs s1 = Some (listing (ftp_fs s)))"
  using assms
  by (cases "ftp_fs s")
     (auto simp: ftp_navigate_def ftp_cwd_def ftp_mkd_def listing_def split: if_splits)


lemma ftp_try_success:
  assumes "ftp_try cfg flt clk z s = (s', None)"
  shows "1 \<le> ftp_max cfg \<and> last_ftp_run s' = ftp_done clk \<and> path_exists z (temp_fs s) \<and>
         (\<exists>l. l = filter (\<lambda>n. n \<notin> set (take (Suc (length (sorted_files (ftp_fs s))) - nat (ftp_max cfg))
                                         (sorted_files (ftp_fs s))))
                   (listing (ftp_fs s)) \<and>
              ftp_fs s' = Some (if z \<in> set l then l else l @ [z]))"
proof -
  have nf: "\<not> ftp_connect_fails flt" "\<not> ftp_login_fails flt"
    using assms by (auto simp: ftp_try_def split: if_splits)
  obtain s1 r1 where nav: "ftp_navigate flt (emit INFO ''Connected to FTP'' s) = (s1, r1)"
    by (cases "ftp_navigate flt (emit INFO ''Connected to FTP'' s)") auto
  with assms nf have r1: "r1 = None"
    by (auto simp: ftp_try_def split: option.splits)
  from ftp_navigate_frame [OF nav] r1
  have f1: "temp_fs s1 = temp_fs s" "ftp_fs s1 = Some (listing (ftp_fs s))"
    by (simp_all add: emit_def)
  have sf: "sorted_files (ftp_fs s1) = sorted_files (ftp_fs s)"
    by (simp add: f1 sorted_files_listing)
  obtain s2 r2 where rot: "rotate_ftp flt (ftp_max cfg) (sorted_files (ftp_fs s1)) s1 = (s2, r2)"
    by (cases "rotate_ftp flt (ftp_max cfg) (sorted_files (ftp_fs s1)) s1") auto
  with assms nf nav r1 have r2: "r2 = None"
    by (auto simp: ftp_try_def split: option.splits if_splits)
  have pos: "1 \<le> ftp_max cfg"
    using rotate_ftp_nonpos [of "ftp_max cfg" flt "sorted_files (ftp_fs s1)" s1] rot r2
    by (cases "ftp_max cfg \<le> 0") auto
  from rotate_ftp_success [OF rot [unfolded r2] f1(2)]
  have l2: "ftp_fs s2 = Some (filter (\<lambda>n. n \<notin> set (take (Suc (length (sorted_files (ftp_fs s))) - nat (ftp_max cfg))
                                         (sorted_files (ftp_fs s)))) (listing (ftp_fs s)))"
    by (simp only: sf)
  from rotate_ftp_frame [OF rot] f1 have t2: "temp_fs s2 = temp_fs s"
    by simp
  from assms nf nav r1 rot r2 l2 t2 pos show ?thesis
    by (auto simp: ftp_try_def emit_def ftp_stor_def listing_def
             split: option.splits sum.splits if_splits)
qed

lemma ftp_try_failure:
  assumes "ftp_try cfg flt clk z s = (s', Some e)"
  shows "last_ftp_run s' = last_ftp_run s \<and>
         (\<exists>k\<le>length (sorted_files (ftp_fs s)).
            listing (ftp_fs s') =
              filter (\<lambda>n. n \<notin> set (take k (sorted_files (ftp_fs s)))) (listing (ftp_fs s)))"
proof (cases "ftp_connect_fails flt \<or> ftp_login_fails flt")
  case True
  with assms have "s' = s" by (auto simp: ftp_try_def split: if_splits)
  then show ?thesis by (auto intro!: exI [of _ 0])
next
  case False
  obtain s1 r1 where nav: "ftp_navigate flt (emit INFO ''Connected to FTP'' s) = (s1, r1)"
    by (cases "ftp_navigate flt (emit INFO ''Connected to FTP'' s)") auto
  from ftp_navigate_frame [OF nav]
  have f1: "listing (ftp_fs s1) = listing (ftp_fs s)" "last_ftp_run s1 = last_ftp_run s"
    "r1 = None \<longrightarrow> ftp_fs s1 = Some (listing (ftp_fs s))"
    by (simp_all add: emit_def)
  show ?thesis
  proof (cases "r1 = None \<and> \<not> ftp_nlst_fails flt")
    case no: False
    with assms False nav have "s' = s1"
      by (auto simp: ftp_try_def split: option.splits if_splits)
    with f1 show ?thesis by (auto intro!: exI [of _ 0])
  next
    case True
    with f1 have fs1: "ftp_fs s1 = Some (listing (ftp_fs s))" by simp
    have sf: "sorted_files (ftp_fs s1) = sorted_files (ftp_fs s)"
      by (simp add: fs1 sorted_files_listing)
    obtain s2 r2 where rot: "rotate_ftp flt (ftp_max cfg) (sorted_files (ftp_fs s1)) s1 = (s2, r2)"
      by (cases "rotate_ftp flt (ftp_max cfg) (sorted_files (ftp_fs s1)) s1") auto
    from rotate_ftp_prefix [OF rot fs1] obtain k where
      k: "k \<le> length (sorted_files (ftp_fs s))"
         "ftp_fs s2 = Some (filter (\<lambda>n. n \<notin> set (take k (sorted_files (ftp_fs s)))) (listing (ftp_fs s)))"
      unfolding sf by blast
    from rotate_ftp_frame [OF rot] f1 have r: "last_ftp_run s2 = last_ftp_run s"
      by simp
    from assms False True nav rot have "s' = s2"
      by (auto simp: ftp_try_def split: option.splits sum.splits if_splits)
    with k r show ?thesis
      by (auto simp: listing_def)
  qed
qed


section \<open>Counting retained archives\<close>

lemma length_filter_take_le:
  "length (filter (\<lambda>e. f e \<notin> set (take j (map f xs))) xs) \<le> length xs - j"
proof -
  let ?P = "\<lambda>e. f e \<notin> set (take j (map f xs))"
  have a: "filter ?P (take j xs) = []"
    by (auto simp: take_map filter_empty_conv)
  have "filter ?P xs = filter ?P (take j xs @ drop j xs)"
    by (simp only: append_take_drop_id)
  also have "\<dots> = filter ?P (drop j xs)"
    by (simp only: filter_append a append_Nil)
  finally have eq: "filter ?P xs = filter ?P (drop j xs)" .
  have "length (filter ?P (drop j xs)) \<le> length (drop j xs)"
    by (rule length_filter_le)
  with eq show ?thesis by simp
qed

lemma retained_local_sorted: "retained_local s = length (sorted_backups (local_fs s))"
  by (cases "local_fs s")
     (simp_all add: retained_local_def sorted_backups_def names_def entries_def filter_map o_def)

lemma retained_after_rotation_le:
  fixes es :: directory
  shows "length (filter glob_backup (map fst
           (filter (\<lambda>e. fst e \<notin> set (take j (sorted_backups (Some es)))) es)))
         \<le> length (sorted_backups (Some es)) - j"
proof -
  let ?G = "sort_key snd (filter (\<lambda>e. glob_backup (fst e)) es)"
  let ?D = "\<lambda>e. fst e \<notin> set (take j (map fst ?G))"
  have "length (filter glob_backup (map fst (filter ?D es))) =
        length (filter ?D (filter (\<lambda>e. glob_backup (fst e)) es))"
    by (simp add: filter_map o_def conj_commute)
  also have "\<dots> = length (sort_key snd (filter ?D (filter (\<lambda>e. glob_backup (fst e)) es)))"
    by simp
  also have "\<dots> = length (filter ?D ?G)"
    by (simp only: filter_sort)
  also have "\<dots> \<le> length ?G - j"
    by (rule length_filter_take_le)
  finally show ?thesis
    by (simp add: sorted_backups_def entries_def)
qed

lemma retained_after_rotation_eq:
  fixes es :: directory
  assumes "distinct (map fst es)"
  shows "length (filter glob_backup (map fst
           (filter (\<lambda>e. fst e \<notin> set (take j (sorted_backups (Some es)))) es)))
         = length (sorted_backups (Some es)) - j"
proof -
  have "length (sorted_backups (Some (filter (\<lambda>e. fst e \<notin> set (take j (sorted_backups (Some es)))) es)))
        = length (drop j (sorted_backups (Some es)))"
    by (simp only: sorted_backups_after_rotation [OF assms])
  then show ?thesis
    by (simp add: sorted_backups_def entries_def filter_map o_def)
qed

lemma sorted_backups_entries: "sorted_backups (Some (entries d)) = sorted_backups d"
  by (cases d) (simp_all add: sorted_backups_def entries_def)

lemma count_write_file_le:
  "length (filter P (map fst (write_file z m xs))) \<le> Suc (length (filter P (map fst xs)))"
  by (induction xs) (auto simp: write_file_def)

lemma count_write_file_fresh:
  "z \<notin> set (map fst xs) \<Longrightarrow> P z \<Longrightarrow>
   length (filter P (map fst (write_file z m xs))) = Suc (length (filter P (map fst xs)))"
  by (induction xs) (auto simp: write_file_def)

lemma distinct_write_file:
  "distinct (map fst xs) \<Longrightarrow> distinct (map fst (write_file z m xs))"
  by (induction xs) (auto simp: write_file_def)

lemma local_store_le:
  assumes "local_try cfg flt clk z s = (s', None)"
  shows "1 \<le> local_max cfg \<and> int (retained_local s') \<le> local_max cfg"
proof -
  let ?bs = "sorted_backups (local_fs s)"
  let ?j = "Suc (length ?bs) - nat (local_max cfg)"
  let ?rem = "filter (\<lambda>e. fst e \<notin> set (take ?j ?bs)) (entries (local_fs s))"
  from local_try_success [OF assms] obtain m where
    pos: "1 \<le> local_max cfg" and fs: "local_fs s' = Some (write_file z m ?rem)"
    by blast
  have "length (filter glob_backup (map fst ?rem)) \<le> length ?bs - ?j"
    using retained_after_rotation_le [of ?j "entries (local_fs s)"]
    by (simp add: sorted_backups_entries)
  moreover have "retained_local s' \<le> Suc (length (filter glob_backup (map fst ?rem)))"
    using count_write_file_le [of glob_backup z m ?rem]
    by (simp add: retained_local_def fs names_def)
  ultimately show ?thesis using pos by linarith
qed


lemma local_store_eq:
  assumes run: "local_try cfg flt clk z s = (s', None)"
    and d: "distinct (names (local_fs s))" and fresh: "z \<notin> set (names (local_fs s))"
    and g: "glob_backup z"
  shows "int (retained_local s') = min (local_max cfg) (int (retained_local s) + 1) \<and>
         distinct (names (local_fs s')) \<and>
         set (names (local_fs s')) \<subseteq> insert z (set (names (local_fs s)))"
proof -
  let ?es = "entries (local_fs s)"
  let ?bs = "sorted_backups (local_fs s)"
  let ?j = "Suc (length ?bs) - nat (local_max cfg)"
  let ?rem = "filter (\<lambda>e. fst e \<notin> set (take ?j ?bs)) ?es"
  from local_try_success [OF run] obtain m where
    pos: "1 \<le> local_max cfg" and fs: "local_fs s' = Some (write_file z m ?rem)"
    by blast
  have nm: "names (local_fs s) = map fst ?es"
    by (cases "local_fs s") (simp_all add: names_def entries_def)
  have des: "distinct (map fst ?es)" and zes: "z \<notin> set (map fst ?es)"
    using d fresh by (simp_all add: nm)
  have zrem: "z \<notin> set (map fst ?rem)"
    using zes by auto
  have "length (filter glob_backup (map fst ?rem)) = length ?bs - ?j"
    using retained_after_rotation_eq [OF des, of ?j] by (simp add: sorted_backups_entries)
  with count_write_file_fresh [OF zrem, of glob_backup m] g
  have "retained_local s' = Suc (length ?bs - ?j)"
    by (simp add: retained_local_def fs names_def)
  then have cnt: "int (retained_local s') = min (local_max cfg) (int (retained_local s) + 1)"
    using pos by (simp add: retained_local_sorted)
  have "distinct (map fst ?rem)"
    using des by (simp add: distinct_map_filter)
  then have dist: "distinct (names (local_fs s'))"
    by (simp add: fs names_def distinct_write_file)
  have "set (map fst (write_file z m ?rem)) \<subseteq> insert z (set (map fst ?es))"
    by (auto simp: write_file_def)
  then have "set (names (local_fs s')) \<subseteq> insert z (set (names (local_fs s)))"
    unfolding fs nm by (simp only: names_def option.case)
  with cnt dist show ?thesis by blast
qed

lemma process_local_ok:
  assumes "local_store_ok cfg flt clk z s"
  shows "local_try cfg flt clk z s = (process_local cfg flt clk z s, None)"
  using assms
  by (cases "local_try cfg flt clk z s") (auto simp: local_store_ok_def process_local_def)

lemma local_stores_le:
  "calls \<noteq> [] \<Longrightarrow> local_stores cfg calls s = Some s' \<Longrightarrow>
     1 \<le> local_max cfg \<and> int (retained_local s') \<le> local_max cfg"
proof (induction calls arbitrary: s)
  case Nil
  then show ?case by simp
next
  case (Cons c rest)
  obtain flt clk z scratch where c: "c = (flt, clk, z, scratch)"
    by (cases c) auto
  let ?s0 = "s\<lparr>temp_fs := scratch\<rparr>"
  let ?s1 = "process_local cfg flt clk z ?s0"
  from Cons.prems c have ok: "local_store_ok cfg flt clk z ?s0"
    and rest: "local_stores cfg rest ?s1 = Some s'"
    by (auto split: if_splits)
  show ?case
  proof (cases "rest = []")
    case True
    with rest have "s' = ?s1" by simp
    with local_store_le [OF process_local_ok [OF ok]] show ?thesis by simp
  next
    case False
    from Cons.IH [OF False rest] show ?thesis .
  qed
qed

lemma local_stores_eq:
  "calls \<noteq> [] \<Longrightarrow> local_stores cfg calls s = Some s' \<Longrightarrow> distinct (names (local_fs s)) \<Longrightarrow>
   distinct (map call_path calls) \<Longrightarrow> set (map call_path calls) \<inter> set (names (local_fs s)) = {} \<Longrightarrow>
   \<forall>c\<in>set calls. glob_backup (call_path c) \<Longrightarrow>
     int (retained_local s') = min (local_max cfg) (int (retained_local s) + int (length calls))"
proof (induction calls arbitrary: s)
  case Nil
  then show ?case by simp
next
  case (Cons c rest)
  obtain flt clk z scratch where c: "c = (flt, clk, z, scratch)"
    by (cases c) auto
  let ?s0 = "s\<lparr>temp_fs := scratch\<rparr>"
  let ?s1 = "process_local cfg flt clk z ?s0"
  from Cons.prems(2) c have ok: "local_store_ok cfg flt clk z ?s0"
    and rest: "local_stores cfg rest ?s1 = Some s'"
    by (auto split: if_splits)
  have z: "call_path c = z" by (simp add: c call_path_def)
  from Cons.prems z have pre: "distinct (names (local_fs ?s0))" "z \<notin> set (names (local_fs ?s0))"
    "glob_backup z"
    by auto
  from local_store_eq [OF process_local_ok [OF ok] pre]
  have step: "int (retained_local ?s1) = min (local_max cfg) (int (retained_local s) + 1)"
    "distinct (names (local_fs ?s1))"
    "set (names (local_fs ?s1)) \<subseteq> insert z (set (names (local_fs s)))"
    by (simp_all add: retained_local_def)
  show ?case
  proof (cases "rest = []")
    case True
    with rest have "s' = ?s1" by simp
    with step True show ?thesis by simp
  next
    case False
    have "set (map call_path rest) \<inter> set (names (local_fs ?s1)) = {}"
    proof -
      have "call_path x \<notin> set (names (local_fs ?s1))" if "x \<in> set rest" for x
      proof
        assume "call_path x \<in> set (names (local_fs ?s1))"
        with step(3) have "call_path x = z \<or> call_path x \<in> set (names (local_fs s))"
          by blast
        moreover have "call_path c \<notin> call_path ` set rest"
          using Cons.prems(4) by simp
        with that z have "call_path x \<noteq> z"
          by (metis imageI)
        moreover from that Cons.prems(5) have "call_path x \<notin> set (names (local_fs s))"
          by auto
        ultimately show False by blast
      qed
      then show ?thesis by auto
    qed
    with Cons.IH [OF False rest step(2)] Cons.prems(4,6)
    have "int (retained_local s') = min (local_max cfg) (int (retained_local ?s1) + int (length rest))"
      by simp
    with step(1) show ?thesis by simp
  qed
qed

lemma retained_ftp_sorted: "retained_ftp s = length (sorted_files (ftp_fs s))"
  by (simp add: retained_ftp_def sorted_files_def)

lemma ftp_after_rotation_le:
  "length (filter ftp_backup (filter (\<lambda>n. n \<notin> set (take j (sorted_files (Some l)))) l))
     \<le> length (sorted_files (Some l)) - j"
proof -
  let ?G = "sort (filter ftp_backup l)"
  let ?D = "\<lambda>n. n \<notin> set (take j (map (\<lambda>n. n) ?G))"
  have "length (filter ftp_backup (filter ?D l)) = length (filter ?D (filter ftp_backup l))"
    by (simp add: conj_commute)
  also have "\<dots> = length (sort (filter ?D (filter ftp_backup l)))"
    by simp
  also have "\<dots> = length (filter ?D ?G)"
    by (simp only: filter_sort)
  also have "\<dots> \<le> length ?G - j"
    by (rule length_filter_take_le)
  finally show ?thesis
    by (simp add: sorted_files_def listing_def)
qed

lemma ftp_after_rotation_eq:
  assumes "distinct l"
  shows "length (filter ftp_backup (filter (\<lambda>n. n \<notin> set (take j (sorted_files (Some l)))) l))
         = length (sorted_files (Some l)) - j"
proof -
  have "length (sorted_files (Some (filter (\<lambda>n. n \<notin> set (take j (sorted_files (Some l)))) l)))
        = length (drop j (sorted_files (Some l)))"
    by (simp only: sorted_files_after_rotation [OF assms])
  then show ?thesis
    by (simp add: sorted_files_def listing_def)
qed

lemma ftp_store_le:
  assumes "ftp_try cfg flt clk z s = (s', None)"
  shows "1 \<le> ftp_max cfg \<and> int (retained_ftp s') \<le> ftp_max cfg"
proof -
  let ?bs = "sorted_files (ftp_fs s)"
  let ?j = "Suc (length ?bs) - nat (ftp_max cfg)"
  let ?rem = "filter (\<lambda>n. n \<notin> set (take ?j ?bs)) (listing (ftp_fs s))"
  from ftp_try_success [OF assms] have
    pos: "1 \<le> ftp_max cfg" and fs: "ftp_fs s' = Some (if z \<in> set ?rem then ?rem else ?rem @ [z])"
    by auto
  have "length (filter ftp_backup ?rem) \<le> length ?bs - ?j"
    using ftp_after_rotation_le [of ?j "listing (ftp_fs s)"]
    by (simp add: sorted_files_listing)
  moreover have "retained_ftp s' \<le> Suc (length (filter ftp_backup ?rem))"
    by (simp add: retained_ftp_def fs listing_def)
  ultimately show ?thesis using pos by linarith
qed

lemma ftp_store_eq:
  assumes run: "ftp_try cfg flt clk z s = (s', None)"
    and d: "distinct (listing (ftp_fs s))" and fresh: "z \<notin> set (listing (ftp_fs s))"
    and g: "ftp_backup z"
  shows "int (retained_ftp s') = min (ftp_max cfg) (int (retained_ftp s) + 1) \<and>
         distinct (listing (ftp_fs s')) \<and>
         set (listing (ftp_fs s')) \<subseteq> insert z (set (listing (ftp_fs s)))"
proof -
  let ?bs = "sorted_files (ftp_fs s)"
  let ?j = "Suc (length ?bs) - nat (ftp_max cfg)"
  let ?rem = "filter (\<lambda>n. n \<notin> set (take ?j ?bs)) (listing (ftp_fs s))"
  from ftp_try_success [OF run] have
    pos: "1 \<le> ftp_max cfg" and fs0: "ftp_fs s' = Some (if z \<in> set ?rem then ?rem else ?rem @ [z])"
    by auto
  have zrem: "z \<notin> set ?rem"
    using fresh by simp
  with fs0 have fs: "ftp_fs s' = Some (?rem @ [z])"
    by simp
  have "length (filter ftp_backup ?rem) = length ?bs - ?j"
    using ftp_after_rotation_eq [OF d, of ?j] by (simp add: sorted_files_listing)
  with g have "retained_ftp s' = Suc (length ?bs - ?j)"
    by (simp add: retained_ftp_def fs listing_def)
  then have cnt: "int (retained_ftp s') = min (ftp_max cfg) (int (retained_ftp s) + 1)"
    using pos by (simp add: retained_ftp_sorted)
  have dist: "distinct (listing (ftp_fs s'))"
    using d zrem by (simp add: fs listing_def)
  have "set (listing (ftp_fs s')) \<subseteq> insert z (set (listing (ftp_fs s)))"
    by (auto simp: fs listing_def)
  with cnt dist show ?thesis by blast
qed

lemma process_ftp_ok:
  assumes "ftp_store_ok cfg flt clk z s"
  shows "ftp_try cfg flt clk z (emit INFO ''Starting FTP Backup...'' s) =
           (process_ftp cfg flt clk z s, None)"
  using assms
  by (cases "ftp_try cfg flt clk z (emit INFO ''Starting FTP Backup...'' s)")
     (auto simp: ftp_store_ok_def process_ftp_def)

lemma ftp_stores_le:
  "calls \<noteq> [] \<Longrightarrow> ftp_stores cfg calls s = Some s' \<Longrightarrow>
     1 \<le> ftp_max cfg \<and> int (retained_ftp s') \<le> ftp_max cfg"
proof (induction calls arbitrary: s)
  case Nil
  then show ?case by simp
next
  case (Cons c rest)
  obtain flt clk z scratch where c: "c = (flt, clk, z, scratch)"
    by (cases c) auto
  let ?s0 = "s\<lparr>temp_fs := scratch\<rparr>"
  let ?s1 = "process_ftp cfg flt clk z ?s0"
  from Cons.prems c have ok: "ftp_store_ok cfg flt clk z ?s0"
    and rest: "ftp_stores cfg rest ?s1 = Some s'"
    by (auto split: if_splits)
  show ?case
  proof (cases "rest = []")
    case True
    with rest have "s' = ?s1" by simp
    with ftp_store_le [OF process_ftp_ok [OF ok]] show ?thesis by simp
  next
    case False
    from Cons.IH [OF False rest] show ?thesis .
  qed
qed

lemma ftp_stores_eq:
  "calls \<noteq> [] \<Longrightarrow> ftp_stores cfg calls s = Some s' \<Longrightarrow> distinct (listing (ftp_fs s)) \<Longrightarrow>
   distinct (map call_path calls) \<Longrightarrow> set (map call_path calls) \<inter> set (listing (ftp_fs s)) = {} \<Longrightarrow>
   \<forall>c\<in>set calls. ftp_backup (call_path c) \<Longrightarrow>
     int (retained_ftp s') = min (ftp_max cfg) (int (retained_ftp s) + int (length calls))"
proof (induction calls arbitrary: s)
  case Nil
  then show ?case by simp
next
  case (Cons c rest)
  obtain flt clk z scratch where c: "c = (flt, clk, z, scratch)"
    by (cases c) auto
  let ?s0 = "s\<lparr>temp_fs := scratch\<rparr>"
  let ?e0 = "emit INFO ''Starting FTP Backup...'' ?s0"
  let ?s1 = "process_ftp cfg flt clk z ?s0"
  from Cons.prems(2) c have ok: "ftp_store_ok cfg flt clk z ?s0"
    and rest: "ftp_stores cfg rest ?s1 = Some s'"
    by (auto split: if_splits)
  have z: "call_path c = z" by (simp add: c call_path_def)
  from Cons.prems z have pre: "distinct (listing (ftp_fs ?e0))" "z \<notin> set (listing (ftp_fs ?e0))"
    "ftp_backup z"
    by (auto simp: emit_def)
  from ftp_store_eq [OF process_ftp_ok [OF ok] pre]
  have step: "int (retained_ftp ?s1) = min (ftp_max cfg) (int (retained_ftp s) + 1)"
    "distinct (listing (ftp_fs ?s1))"
    "set (listing (ftp_fs ?s1)) \<subseteq> insert z (set (listing (ftp_fs s)))"
    by (simp_all add: retained_ftp_def emit_def)
  show ?case
  proof (cases "rest = []")
    case True
    with rest have "s' = ?s1" by simp
    with step True show ?thesis by simp
  next
    case False
    have "set (map call_path rest) \<inter> set (listing (ftp_fs ?s1)) = {}"
    proof -
      have "call_path x \<notin> set (listing (ftp_fs ?s1))" if "x \<in> set rest" for x
      proof
        assume "call_path x \<in> set (listing (ftp_fs ?s1))"
        with step(3) have "call_path x = z \<or> call_path x \<in> set (listing (ftp_fs s))"
          by blast
        moreover have "call_path c \<notin> call_path ` set rest"
          using Cons.prems(4) by simp
        with that z have "call_path x \<noteq> z"
          by (metis imageI)
        moreover from that Cons.prems(5) have "call_path x \<notin> set (listing (ftp_fs s))"
          by auto
        ultimately show False by blast
      qed
      then show ?thesis by auto
    qed
    with Cons.IH [OF False rest step(2)] Cons.prems(4,6)
    have "int (retained_ftp s') = min (ftp_max cfg) (int (retained_ftp ?s1) + int (length rest))"
      by simp
    with step(1) show ?thesis by simp
  qed
qed

lemma rotation_count_local:
  assumes "rotate_local flt mx (sorted_backups (local_fs s)) s = (s2, None)"
  shows "int (retained_local s2) < mx"
proof -
  have pos: "1 \<le> mx"
    using rotate_local_nonpos [of mx flt "sorted_backups (local_fs s)" s] assms
    by (cases "mx \<le> 0") auto
  show ?thesis
  proof (cases "local_fs s")
    case None
    with assms pos have "s2 = s"
      by (simp add: sorted_backups_def entries_def)
    with None pos show ?thesis
      by (simp add: retained_local_def names_def)
  next
    case (Some es)
    let ?bs = "sorted_backups (Some es)"
    let ?j = "Suc (length ?bs) - nat mx"
    from rotate_local_success [OF assms Some]
    have "local_fs s2 = Some (filter (\<lambda>e. fst e \<notin> set (take ?j ?bs)) es)"
      by (simp add: Some)
    then have "retained_local s2 \<le> length ?bs - ?j"
      using retained_after_rotation_le [of ?j es] by (simp add: retained_local_def names_def)
    with pos show ?thesis by linarith
  qed
qed

lemma rotation_count_ftp:
  assumes "rotate_ftp flt mx (sorted_files (ftp_fs s)) s = (s2, None)"
  shows "int (retained_ftp s2) < mx"
proof -
  have pos: "1 \<le> mx"
    using rotate_ftp_nonpos [of mx flt "sorted_files (ftp_fs s)" s] assms
    by (cases "mx \<le> 0") auto
  show ?thesis
  proof (cases "ftp_fs s")
    case None
    with assms pos have "s2 = s"
      by (simp add: sorted_files_def listing_def)
    with None pos show ?thesis
      by (simp add: retained_ftp_def listing_def)
  next
    case (Some l)
    let ?bs = "sorted_files (Some l)"
    let ?j = "Suc (length ?bs) - nat mx"
    from rotate_ftp_success [OF assms Some]
    have "ftp_fs s2 = Some (filter (\<lambda>n. n \<notin> set (take ?j ?bs)) l)"
      by (simp add: Some)
    then have "retained_ftp s2 \<le> length ?bs - ?j"
      using ftp_after_rotation_le [of ?j l] by (simp add: retained_ftp_def listing_def)
    with pos show ?thesis by linarith
  qed
qed

section \<open>Bounded retention\<close>

lemma archive_facts:
  "glob_backup A1" "glob_backup A2" "glob_backup A3" "glob_backup A4"
  "ftp_backup A1" "ftp_backup A2" "ftp_backup A3" "ftp_backup A4"
  "A1 \<noteq> A2" "A1 \<noteq> A3" "A1 \<noteq> A4" "A2 \<noteq> A3" "A2 \<noteq> A4" "A3 \<noteq> A4"
  "A2 \<noteq> A1" "A3 \<noteq> A1" "A4 \<noteq> A1" "A3 \<noteq> A2" "A4 \<noteq> A2" "A4 \<noteq> A3"
  "A1 < A2" "A2 < A3" "A3 < A4" "A1 < A3" "A1 < A4" "A2 < A4"
  by (simp_all add: fixture_defs glob_backup_def ftp_backup_def suffix_to_prefix)

lemmas run_defs = local_store_ok_def process_local_def local_try_def Let_def emit_def
  mkdir_exist_ok_def sorted_backups_def entries_def unlink_def copy2_def write_file_def
  ftp_store_ok_def process_ftp_def ftp_try_def ftp_navigate_def ftp_cwd_def ftp_mkd_def
  ftp_delete_def ftp_stor_def sorted_files_def listing_def path_exists_def names_def
  no_faults_def initial_manager_def both_enabled_def store_call_def clock_at_def

lemma three_local_stores:
  "\<exists>s'. local_stores (both_enabled 2) [store_call 1 A1, store_call 2 A2, store_call 3 A3]
          initial_manager = Some s'"
  by (simp add: run_defs archive_facts)

lemma three_ftp_stores:
  "\<exists>s'. ftp_stores (both_enabled 2) [store_call 1 A1, store_call 2 A2, store_call 3 A3]
          initial_manager = Some s'"
  by (simp add: run_defs archive_facts)

text \<open>
  Claim C1. A sequence of store calls at one destination, all successful, with nothing
  else touching the destination: after the last call the destination retains at most
  \<open>N\<close> archives, where \<open>N\<close> is its configured maximum (a store can only succeed when
  \<open>N \<ge> 1\<close>). When the archives stored have distinct names matching the naming pattern that
  are new to the destination, as the names stamped by successive cycles are, the count
  after \<open>k \<ge> 1\<close> stores is \<open>min N (c + k)\<close> for an initial count \<open>c\<close>; so it is exactly \<open>N\<close>
  once \<open>k \<ge> N\<close>. Within a store the rotation loop leaves fewer than \<open>N\<close> archives before the
  new one lands, so the count never reaches \<open>N + 1\<close>. The same holds for the local folder
  and for the FTP folder.
\<close>

theorem retained_count_bounded:
  "(calls \<noteq> [] \<and> local_stores cfg calls s = Some s' \<longrightarrow>
      1 \<le> local_max cfg \<and> int (retained_local s') \<le> local_max cfg) \<and>
   (calls \<noteq> [] \<and> local_stores cfg calls s = Some s' \<and> distinct (names (local_fs s)) \<and>
    distinct (map call_path calls) \<and> set (map call_path calls) \<inter> set (names (local_fs s)) = {} \<and>
    (\<forall>c\<in>set calls. glob_backup (call_path c)) \<longrightarrow>
      int (retained_local s') = min (local_max cfg) (int (retained_local s) + int (length calls)) \<and>
      (local_max cfg \<le> int (length calls) \<longrightarrow> int (retained_local s') = local_max cfg)) \<and>
   (rotate_local flt (local_max cfg) (sorted_backups (local_fs s)) s = (s2, None) \<longrightarrow>
      int (retained_local s2) < local_max cfg) \<and>
   (calls \<noteq> [] \<and> ftp_stores cfg calls s = Some t' \<longrightarrow>
      1 \<le> ftp_max cfg \<and> int (retained_ftp t') \<le> ftp_max cfg) \<and>
   (calls \<noteq> [] \<and> ftp_stores cfg calls s = Some t' \<and> distinct (listing (ftp_fs s)) \<and>
    distinct (map call_path calls) \<and> set (map call_path calls) \<inter> set (listing (ftp_fs s)) = {} \<and>
    (\<forall>c\<in>set calls. ftp_backup (call_path c)) \<longrightarrow>
      int (retained_ftp t') = min (ftp_max cfg) (int (retained_ftp s) + int (length calls)) \<and>
      (ftp_max cfg \<le> int (length calls) \<longrightarrow> int (retained_ftp t') = ftp_max cfg)) \<and>
   (rotate_ftp flt (ftp_max cfg) (sorted_files (ftp_fs s)) s = (t2, None) \<longrightarrow>
      int (retained_ftp t2) < ftp_max cfg)"
proof (intro conjI impI)
  assume "calls \<noteq> [] \<and> local_stores cfg calls s = Some s'"
  then show "1 \<le> local_max cfg" "int (retained_local s') \<le> local_max cfg"
    using local_stores_le [of calls cfg s s'] by simp_all
next
  assume a: "calls \<noteq> [] \<and> local_stores cfg calls s = Some s' \<and> distinct (names (local_fs s)) \<and>
    distinct (map call_path calls) \<and> set (map call_path calls) \<inter> set (names (local_fs s)) = {} \<and>
    (\<forall>c\<in>set calls. glob_backup (call_path c))"
  then show eq: "int (retained_local s') = min (local_max cfg) (int (retained_local s) + int (length calls))"
    using local_stores_eq [of calls cfg s s'] by blast
  assume "local_max cfg \<le> int (length calls)"
  with eq show "int (retained_local s') = local_max cfg" by simp
next
  assume "rotate_local flt (local_max cfg) (sorted_backups (local_fs s)) s = (s2, None)"
  then show "int (retained_local s2) < local_max cfg"
    by (rule rotation_count_local)
next
  assume "calls \<noteq> [] \<and> ftp_stores cfg calls s = Some t'"
  then show "1 \<le> ftp_max cfg" "int (retained_ftp t') \<le> ftp_max cfg"
    using ftp_stores_le [of calls cfg s t'] by simp_all
next
  assume a: "calls \<noteq> [] \<and> ftp_stores cfg calls s = Some t' \<and> distinct (listing (ftp_fs s)) \<and>
    distinct (map call_path calls) \<and> set (map call_path calls) \<inter> set (listing (ftp_fs s)) = {} \<and>
    (\<forall>c\<in>set calls. ftp_backup (call_path c))"
  then show eq: "int (retained_ftp t') = min (ftp_max cfg) (int (retained_ftp s) + int (length calls))"
    using ftp_stores_eq [of calls cfg s t'] by blast
  assume "ftp_max cfg \<le> int (length calls)"
  with eq show "int (retained_ftp t') = ftp_max cfg" by simp
next
  assume "rotate_ftp flt (ftp_max cfg) (sorted_files (ftp_fs s)) s = (t2, None)"
  then show "int (retained_ftp t2) < ftp_max cfg"
    by (rule rotation_count_ftp)
qed

theorem retained_count_bounded_witness:
  "(\<exists>s'. local_stores (both_enabled 2) [store_call 1 A1, store_call 2 A2, store_call 3 A3]
           initial_manager = Some s' \<and> retained_local s' = 2) \<and>
   (\<exists>t'. ftp_stores (both_enabled 2) [store_call 1 A1, store_call 2 A2, store_call 3 A3]
           initial_manager = Some t' \<and> retained_ftp t' = 2)"
proof -
  let ?calls = "[store_call 1 A1, store_call 2 A2, store_call 3 A3]"
  obtain s' where s': "local_stores (both_enabled 2) ?calls initial_manager = Some s'"
    using three_local_stores by blast
  obtain t' where t': "ftp_stores (both_enabled 2) ?calls initial_manager = Some t'"
    using three_ftp_stores by blast
  have pre: "distinct (map call_path ?calls)"
    "\<forall>c\<in>set ?calls. glob_backup (call_path c)" "\<forall>c\<in>set ?calls. ftp_backup (call_path c)"
    "names (local_fs initial_manager) = []" "listing (ftp_fs initial_manager) = []"
    "retained_local initial_manager = 0" "retained_ftp initial_manager = 0"
    "local_max (both_enabled 2) = 2" "ftp_max (both_enabled 2) = 2"
    by (simp_all add: call_path_def store_call_def archive_facts initial_manager_def names_def
          listing_def retained_local_def retained_ftp_def both_enabled_def)
  from retained_count_bounded
    [where calls = ?calls and cfg = "both_enabled 2" and s = initial_manager and s' = s' and t' = t'
       and flt = no_faults and ?s2.0 = initial_manager and ?t2.0 = initial_manager]
    s' t' pre
  have "int (retained_local s') = 2" "int (retained_ftp t') = 2"
    by simp_all
  with s' t' show ?thesis by simp
qed

section \<open>The scenario of four local stores\<close>





section \<open>A maximum of zero\<close>

lemma rotate_local_nonpos_all:
  "mx \<le> 0 \<Longrightarrow> set bs \<inter> local_undeletable flt = {} \<Longrightarrow> distinct bs \<Longrightarrow>
   set bs \<subseteq> set (map fst es) \<Longrightarrow> local_fs s = Some es \<Longrightarrow>
     \<exists>s2. rotate_local flt mx bs s = (s2, Some IndexError) \<and>
          local_fs s2 = Some (filter (\<lambda>e. fst e \<notin> set bs) es)"
proof (induction bs arbitrary: s es)
  case Nil
  then show ?case by simp
next
  case (Cons oldest rest)
  let ?es = "filter (\<lambda>e. fst e \<noteq> oldest) es"
  let ?s = "emit WARNING (''Rotated local backup: '' @ oldest) (s\<lparr>local_fs := Some ?es\<rparr>)"
  have sub: "set rest \<subseteq> set (map fst ?es)"
    using Cons.prems(3,4) by fastforce
  have "local_fs ?s = Some ?es" by (simp add: emit_def)
  from Cons.IH [OF Cons.prems(1) _ _ sub this] Cons.prems(2,3)
  obtain s2 where s2: "rotate_local flt mx rest ?s = (s2, Some IndexError)"
    "local_fs s2 = Some (filter (\<lambda>e. fst e \<notin> set rest) ?es)"
    by auto
  have "filter (\<lambda>e. fst e \<notin> set rest) ?es = filter (\<lambda>e. fst e \<notin> set (oldest # rest)) es"
    by (auto intro: filter_cong)
  with s2 Cons.prems show ?case
    by (auto simp: unlink_def)
qed

lemma rotate_ftp_nonpos_all:
  "mx \<le> 0 \<Longrightarrow> set bs \<inter> ftp_undeletable flt = {} \<Longrightarrow> distinct bs \<Longrightarrow>
   set bs \<subseteq> set l \<Longrightarrow> ftp_fs s = Some l \<Longrightarrow>
     \<exists>s2. rotate_ftp flt mx bs s = (s2, Some IndexError) \<and>
          ftp_fs s2 = Some (filter (\<lambda>n. n \<notin> set bs) l)"
proof (induction bs arbitrary: s l)
  case Nil
  then show ?case by simp
next
  case (Cons oldest rest)
  let ?l = "filter (\<lambda>n. n \<noteq> oldest) l"
  let ?s = "emit WARNING (''Rotated FTP backup: '' @ oldest) (s\<lparr>ftp_fs := Some ?l\<rparr>)"
  have sub: "set rest \<subseteq> set ?l"
    using Cons.prems(3,4) by auto
  have "ftp_fs ?s = Some ?l" by (simp add: emit_def)
  from Cons.IH [OF Cons.prems(1) _ _ sub this] Cons.prems(2,3)
  obtain s2 where s2: "rotate_ftp flt mx rest ?s = (s2, Some IndexError)"
    "ftp_fs s2 = Some (filter (\<lambda>n. n \<notin> set rest) ?l)"
    by auto
  have "filter (\<lambda>n. n \<notin> set rest) ?l = filter (\<lambda>n. n \<notin> set (oldest # rest)) l"
    by (auto intro: filter_cong)
  moreover have "ftp_delete flt oldest (ftp_fs s) = Inr (Some ?l)"
    using Cons.prems by (simp add: ftp_delete_Inr)
  ultimately show ?case
    using s2 Cons.prems(1) by simp
qed

lemma local_max_zero:
  assumes "local_max cfg \<le> 0"
  shows "\<not> local_store_ok cfg flt clk z s"
    and "last_local_run (process_local cfg flt clk z s) = last_local_run s"
    and "set (names (local_fs (process_local cfg flt clk z s))) \<subseteq> set (names (local_fs s))"
    and "local_enabled cfg \<Longrightarrow> \<not> local_mkdir_fails flt \<Longrightarrow> local_undeletable flt = {} \<Longrightarrow>
         distinct (names (local_fs s)) \<Longrightarrow> retained_local (process_local cfg flt clk z s) = 0"
proof -
  obtain s' r where run: "local_try cfg flt clk z s = (s', r)"
    by (cases "local_try cfg flt clk z s") auto
  have "r \<noteq> None"
    using local_try_success [of cfg flt clk z s s'] run assms by (cases r) auto
  then obtain e where r: "r = Some e" by auto
  show "\<not> local_store_ok cfg flt clk z s"
    using run r by (simp add: local_store_ok_def)
  have pl: "process_local cfg flt clk z s =
      (if local_enabled cfg then emit ERROR (''Local backup failed: '' @ error_text e) s' else s)"
    using run r by (simp add: process_local_def)
  from local_try_failure [OF run [unfolded r]] obtain k where
    lr: "last_local_run s' = last_local_run s" and
    k: "entries (local_fs s') =
         filter (\<lambda>e. fst e \<notin> set (take k (sorted_backups (local_fs s)))) (entries (local_fs s))"
    by blast
  show "last_local_run (process_local cfg flt clk z s) = last_local_run s"
    using lr by (simp add: pl emit_def)
  have nm: "names d = map fst (entries d)" for d
    by (cases d) (simp_all add: names_def entries_def)
  show "set (names (local_fs (process_local cfg flt clk z s))) \<subseteq> set (names (local_fs s))"
    using k by (auto simp: pl emit_def nm)
  show "retained_local (process_local cfg flt clk z s) = 0"
    if en: "local_enabled cfg" and nf: "\<not> local_mkdir_fails flt" "local_undeletable flt = {}"
      and d: "distinct (names (local_fs s))"
  proof -
    let ?es = "entries (local_fs s)"
    let ?s1 = "(emit INFO ''Starting Local Backup...'' s)
                 \<lparr>local_fs := mkdir_exist_ok (local_fs (emit INFO ''Starting Local Backup...'' s))\<rparr>"
    have l1: "local_fs ?s1 = Some ?es"
      by (simp add: emit_def mkdir_exist_ok_entries)
    have sb: "sorted_backups (local_fs ?s1) = sorted_backups (Some ?es)"
      by (simp add: emit_def sorted_backups_entries)
    have des: "distinct (map fst ?es)"
      using d by (simp add: nm)
    have sub: "set (sorted_backups (Some ?es)) \<subseteq> set (map fst ?es)"
      by (auto simp: set_sorted_backups names_def)
    from rotate_local_nonpos_all [OF assms _ distinct_sorted_backups [OF des] sub l1, of flt] nf
    obtain s2 where s2: "rotate_local flt (local_max cfg) (sorted_backups (Some ?es)) ?s1 = (s2, Some IndexError)"
      "local_fs s2 = Some (filter (\<lambda>e. fst e \<notin> set (sorted_backups (Some ?es))) ?es)"
      by auto
    have sb2: "sorted_backups (local_fs (emit INFO ''Starting Local Backup...'' s)) =
               sorted_backups (Some ?es)"
      by (simp add: emit_def sorted_backups_entries)
    from s2(1) nf have "local_try cfg flt clk z s = (s2, Some IndexError)"
      by (simp add: local_try_def Let_def sb2)
    with run have "s' = s2" by simp
    with s2(2) have "retained_local s' = 0"
      by (auto simp: retained_local_def names_def set_sorted_backups filter_empty_conv)
    then show ?thesis
      using en by (simp add: pl retained_local_def emit_def)
  qed
qed

lemma ftp_max_zero:
  assumes "ftp_max cfg \<le> 0"
  shows "\<not> ftp_store_ok cfg flt clk z s"
    and "last_ftp_run (process_ftp cfg flt clk z s) = last_ftp_run s"
    and "set (listing (ftp_fs (process_ftp cfg flt clk z s))) \<subseteq> set (listing (ftp_fs s))"
    and "ftp_enabled cfg \<Longrightarrow> \<not> ftp_connect_fails flt \<Longrightarrow> \<not> ftp_login_fails flt \<Longrightarrow>
         \<not> ftp_cwd_fails flt \<Longrightarrow> \<not> ftp_mkd_fails flt \<Longrightarrow> \<not> ftp_nlst_fails flt \<Longrightarrow>
         ftp_undeletable flt = {} \<Longrightarrow> distinct (listing (ftp_fs s)) \<Longrightarrow>
         retained_ftp (process_ftp cfg flt clk z s) = 0"
proof -
  let ?e0 = "emit INFO ''Starting FTP Backup...'' s"
  obtain s' r where run: "ftp_try cfg flt clk z ?e0 = (s', r)"
    by (cases "ftp_try cfg flt clk z ?e0") auto
  have "r \<noteq> None"
    using ftp_try_success [of cfg flt clk z ?e0 s'] run assms by (cases r) auto
  then obtain e where r: "r = Some e" by auto
  show "\<not> ftp_store_ok cfg flt clk z s"
    using run r by (simp add: ftp_store_ok_def)
  have pl: "process_ftp cfg flt clk z s =
      (if ftp_enabled cfg then emit ERROR (''FTP backup failed: '' @ error_text e) s' else s)"
    using run r by (simp add: process_ftp_def)
  from ftp_try_failure [OF run [unfolded r]] obtain k where
    lr: "last_ftp_run s' = last_ftp_run s" and
    k: "listing (ftp_fs s') =
         filter (\<lambda>n. n \<notin> set (take k (sorted_files (ftp_fs s)))) (listing (ftp_fs s))"
    by (auto simp: emit_def)
  show "last_ftp_run (process_ftp cfg flt clk z s) = last_ftp_run s"
    using lr by (simp add: pl emit_def)
  show "set (listing (ftp_fs (process_ftp cfg flt clk z s))) \<subseteq> set (listing (ftp_fs s))"
    using k by (auto simp: pl emit_def)
  show "retained_ftp (process_ftp cfg flt clk z s) = 0"
    if en: "ftp_enabled cfg" and nf: "\<not> ftp_connect_fails flt" "\<not> ftp_login_fails flt"
      "\<not> ftp_cwd_fails flt" "\<not> ftp_mkd_fails flt" "\<not> ftp_nlst_fails flt" "ftp_undeletable flt = {}"
      and d: "distinct (listing (ftp_fs s))"
  proof -
    let ?l = "listing (ftp_fs s)"
    obtain s1 r1 where nav: "ftp_navigate flt (emit INFO ''Connected to FTP'' ?e0) = (s1, r1)"
      by (cases "ftp_navigate flt (emit INFO ''Connected to FTP'' ?e0)") auto
    with nf(3,4) have r1: "r1 = None"
      by (cases "ftp_fs s")
         (auto simp: ftp_navigate_def ftp_cwd_def ftp_mkd_def emit_def split: if_splits)
    from ftp_navigate_frame [OF nav] r1 have f1: "ftp_fs s1 = Some ?l"
      by (simp add: emit_def)
    have sf: "sorted_files (ftp_fs s1) = sorted_files (Some ?l)"
      by (simp add: f1)
    have sub: "set (sorted_files (Some ?l)) \<subseteq> set ?l" "distinct (sorted_files (Some ?l))"
      using d by (auto simp: sorted_files_def listing_def)
    from rotate_ftp_nonpos_all [OF assms _ sub(2) sub(1) f1, of flt] nf
    obtain s2 where s2: "rotate_ftp flt (ftp_max cfg) (sorted_files (Some ?l)) s1 = (s2, Some IndexError)"
      "ftp_fs s2 = Some (filter (\<lambda>n. n \<notin> set (sorted_files (Some ?l))) ?l)"
      by auto
    from s2(1) nf nav r1 have "ftp_try cfg flt clk z ?e0 = (s2, Some IndexError)"
      by (simp add: ftp_try_def sf)
    with run have "s' = s2" by simp
    with s2(2) have "retained_ftp s' = 0"
      by (auto simp: retained_ftp_def listing_def sorted_files_def filter_empty_conv)
    then show ?thesis
      using en by (simp add: pl retained_ftp_def emit_def)
  qed
qed

text \<open>
  Claim C7, as amended. The maximum is not clamped. With a configured maximum of 0 (or
  less) no store succeeds at either destination: the loop condition
  \<^verbatim>\<open>len(backups) >= max\<close> stays true, the loop deletes listed archives and \<^verbatim>\<open>pop(0)\<close> on the
  empty list raises before the transfer. The new archive is not stored, \<^verbatim>\<open>last_run\<close> is not
  advanced, and when no call fails on the way the destination retains no archive at all.
\<close>

theorem store_with_nonpositive_max_fails:
  "(local_max cfg \<le> 0 \<longrightarrow>
      \<not> local_store_ok cfg flt clk z s \<and>
      last_local_run (process_local cfg flt clk z s) = last_local_run s \<and>
      set (names (local_fs (process_local cfg flt clk z s))) \<subseteq> set (names (local_fs s)) \<and>
      (local_enabled cfg \<and> \<not> local_mkdir_fails flt \<and> local_undeletable flt = {} \<and>
       distinct (names (local_fs s)) \<longrightarrow>
         retained_local (process_local cfg flt clk z s) = 0)) \<and>
   (ftp_max cfg \<le> 0 \<longrightarrow>
      \<not> ftp_store_ok cfg flt clk z s \<and>
      last_ftp_run (process_ftp cfg flt clk z s) = last_ftp_run s \<and>
      set (listing (ftp_fs (process_ftp cfg flt clk z s))) \<subseteq> set (listing (ftp_fs s)) \<and>
      (ftp_enabled cfg \<and> \<not> ftp_connect_fails flt \<and> \<not> ftp_login_fails flt \<and>
       \<not> ftp_cwd_fails flt \<and> \<not> ftp_mkd_fails flt \<and> \<not> ftp_nlst_fails flt \<and>
       ftp_undeletable flt = {} \<and> distinct (listing (ftp_fs s)) \<longrightarrow>
         retained_ftp (process_ftp cfg flt clk z s) = 0))"
  using local_max_zero [where cfg = cfg and flt = flt and clk = clk and z = z and s = s]
    ftp_max_zero [where cfg = cfg and flt = flt and clk = clk and z = z and s = s]
  by blast

theorem store_with_nonpositive_max_fails_witness:
  "\<not> local_store_ok (both_enabled 0) no_faults (clock_at 2 D2) A2
       (initial_manager\<lparr>temp_fs := Some [(A2, 2)], local_fs := Some [(A1, 1)], ftp_fs := Some [A1]\<rparr>) \<and>
   retained_local (process_local (both_enabled 0) no_faults (clock_at 2 D2) A2
       (initial_manager\<lparr>temp_fs := Some [(A2, 2)], local_fs := Some [(A1, 1)], ftp_fs := Some [A1]\<rparr>)) = 0 \<and>
   last_local_run (process_local (both_enabled 0) no_faults (clock_at 2 D2) A2
       (initial_manager\<lparr>temp_fs := Some [(A2, 2)], local_fs := Some [(A1, 1)], ftp_fs := Some [A1]\<rparr>)) = 0 \<and>
   \<not> ftp_store_ok (both_enabled 0) no_faults (clock_at 2 D2) A2
       (initial_manager\<lparr>temp_fs := Some [(A2, 2)], local_fs := Some [(A1, 1)], ftp_fs := Some [A1]\<rparr>) \<and>
   retained_ftp (process_ftp (both_enabled 0) no_faults (clock_at 2 D2) A2
       (initial_manager\<lparr>temp_fs := Some [(A2, 2)], local_fs := Some [(A1, 1)], ftp_fs := Some [A1]\<rparr>)) = 0 \<and>
   last_ftp_run (process_ftp (both_enabled 0) no_faults (clock_at 2 D2) A2
       (initial_manager\<lparr>temp_fs := Some [(A2, 2)], local_fs := Some [(A1, 1)], ftp_fs := Some [A1]\<rparr>)) = 0"
  using store_with_nonpositive_max_fails
    [where cfg = "both_enabled 0" and flt = no_faults and clk = "clock_at 2 D2" and z = A2
       and s = "initial_manager\<lparr>temp_fs := Some [(A2, 2)], local_fs := Some [(A1, 1)], ftp_fs := Some [A1]\<rparr>"]
  by (simp add: both_enabled_def no_faults_def initial_manager_def names_def listing_def)

text \<open>
  Claim C7 as stated fails: with the maximum 1 the store of \<open>A2\<close> leaves \<open>A2\<close> in the folder;
  with the maximum 0 it leaves the folder empty and the store is not recorded.
\<close>

theorem max_zero_not_treated_as_one_counterexample:
  "A2 \<notin> set (names (local_fs (process_local (both_enabled 0) no_faults (clock_at 2 D2) A2
       (initial_manager\<lparr>temp_fs := Some [(A2, 2)], local_fs := Some [(A1, 1)]\<rparr>)))) \<and>
   names (local_fs (process_local (both_enabled 0) no_faults (clock_at 2 D2) A2
       (initial_manager\<lparr>temp_fs := Some [(A2, 2)], local_fs := Some [(A1, 1)]\<rparr>))) = [] \<and>
   names (local_fs (process_local (both_enabled 1) no_faults (clock_at 2 D2) A2
       (initial_manager\<lparr>temp_fs := Some [(A2, 2)], local_fs := Some [(A1, 1)]\<rparr>))) = [A2] \<and>
   last_local_run (process_local (both_enabled 0) no_faults (clock_at 2 D2) A2
       (initial_manager\<lparr>temp_fs := Some [(A2, 2)], local_fs := Some [(A1, 1)]\<rparr>)) = 0 \<and>
   last_local_run (process_local (both_enabled 1) no_faults (clock_at 2 D2) A2
       (initial_manager\<lparr>temp_fs := Some [(A2, 2)], local_fs := Some [(A1, 1)]\<rparr>)) = 2"
  by (simp add: run_defs archive_facts)

section \<open>A store that fails after rotating\<close>






section \<open>The backup cycle\<close>














section \<open>Isolation of a failing destination\<close>











section \<open>Due destinations and the wait\<close>














end
